theory Spec2Isabelle
  imports Main
begin

section \<open>Runes, strings and errors\<close>

text \<open>
  A Go \<^verbatim>\<open>rune\<close> is an \<^verbatim>\<open>int32\<close> code point; it is modelled as an \<open>int\<close>.  A Go string
  is modelled as the list of the runes it encodes.  \<open>runes\<close> turns an ASCII literal into
  such a list.
\<close>

type_synonym rune = int
type_synonym gostring = "rune list"

definition runes :: "string \<Rightarrow> gostring" where
  "runes s = map of_char s"

abbreviation langle :: rune where "langle \<equiv> 60"
abbreviation rangle :: rune where "rangle \<equiv> 62"
abbreviation slash :: rune where "slash \<equiv> 47"
abbreviation equal :: rune where "equal \<equiv> 61"
abbreviation dquote :: rune where "dquote \<equiv> 34"
abbreviation squote :: rune where "squote \<equiv> 39"
abbreviation mark :: rune where "mark \<equiv> 63"
abbreviation bang :: rune where "bang \<equiv> 33"
abbreviation tab :: rune where "tab \<equiv> 9"
abbreviation space :: rune where "space \<equiv> 32"
abbreviation nl :: rune where "nl \<equiv> 10"
abbreviation cr :: rune where "cr \<equiv> 13"
abbreviation underscore :: rune where "underscore \<equiv> 95"
abbreviation hyphen :: rune where "hyphen \<equiv> 45"
abbreviation lsquare :: rune where "lsquare \<equiv> 91"
abbreviation rsquare :: rune where "rsquare \<equiv> 93"
abbreviation colon :: rune where "colon \<equiv> 58"
abbreviation ampersand :: rune where "ampersand \<equiv> 38"
abbreviation semicolon :: rune where "semicolon \<equiv> 59"
abbreviation pound :: rune where "pound \<equiv> 35"

text \<open>
  Go errors.  The six sentinels of the package, the sentinels of the standard library
  that the package can return, \<open>ErrorString\<close> for an error made by \<^verbatim>\<open>fmt.Errorf\<close> without
  \<^verbatim>\<open>%w\<close>, and \<open>Wrapped\<close> for an error that wraps another one (\<^verbatim>\<open>fmt.Errorf\<close> with \<^verbatim>\<open>%w\<close>,
  \<^verbatim>\<open>strconv.NumError\<close>): its format, its string arguments and the wrapped error.
  \<open>NilDeref\<close> is the panic of dereferencing a nil \<^verbatim>\<open>*Node\<close>.
\<close>

datatype error =
    ErrSkip | ErrIgnore | ErrStop | ErrUnsubscribe | ErrChar | ErrMalformed
  | io_EOF | ErrInvalidUnreadRune | strconv_ErrSyntax | strconv_ErrRange
  | ErrorString string
  | Wrapped string "gostring list" error
  | NilDeref

text \<open>\<^verbatim>\<open>errors.Is\<close>: the error is the target, or wraps an error that is.\<close>

fun errors_Is :: "error \<Rightarrow> error \<Rightarrow> bool" where
  "errors_Is (Wrapped f as e) target = (Wrapped f as e = target \<or> errors_Is e target)"
| "errors_Is e target = (e = target)"

section \<open>Lexical helpers\<close>

definition isLetter :: "rune \<Rightarrow> bool" where
  "isLetter r = ((r \<ge> 97 \<and> r \<le> 122) \<or> (r \<ge> 65 \<and> r \<le> 90))"

definition isDigit :: "rune \<Rightarrow> bool" where
  "isDigit r = (r \<ge> 48 \<and> r \<le> 57)"

definition isHex :: "rune \<Rightarrow> bool" where
  "isHex r = (isDigit r \<or> (r \<ge> 97 \<and> r \<le> 102) \<or> (r \<ge> 65 \<and> r \<le> 70))"

definition isName :: "rune \<Rightarrow> bool" where
  "isName r = (isLetter r \<or> isDigit r \<or> r = hyphen \<or> r = underscore)"

definition isQuote :: "rune \<Rightarrow> bool" where
  "isQuote r = (r = dquote \<or> r = squote)"

definition isSpace :: "rune \<Rightarrow> bool" where
  "isSpace r = (r = space \<or> r = tab)"

definition isNL :: "rune \<Rightarrow> bool" where
  "isNL r = (r = nl \<or> r = cr)"

definition isBlank :: "rune \<Rightarrow> bool" where
  "isBlank r = (isSpace r \<or> isNL r)"

text \<open>
  \<^verbatim>\<open>unicode.IsSpace\<close>, the white space that \<^verbatim>\<open>strings.TrimSpace\<close> removes from both ends.
\<close>

definition unicode_IsSpace :: "rune \<Rightarrow> bool" where
  "unicode_IsSpace r =
     ((9 \<le> r \<and> r \<le> 13) \<or> r = 32 \<or> r = 133 \<or> r = 160 \<or> r = 5760
      \<or> (8192 \<le> r \<and> r \<le> 8202) \<or> r = 8232 \<or> r = 8233 \<or> r = 8239
      \<or> r = 8287 \<or> r = 12288)"

definition TrimSpace :: "gostring \<Rightarrow> gostring" where
  "TrimSpace s = rev (dropWhile unicode_IsSpace (rev (dropWhile unicode_IsSpace s)))"

text \<open>
  \<^verbatim>\<open>bytes.Buffer.WriteRune\<close> appends the UTF-8 encoding of the rune, and the encoding of
  U+FFFD for a rune that is no Unicode scalar value.
\<close>

definition valid_rune :: "rune \<Rightarrow> bool" where
  "valid_rune r = ((0 \<le> r \<and> r < 55296) \<or> (57343 < r \<and> r \<le> 1114111))"

definition WriteRune :: "gostring \<Rightarrow> rune \<Rightarrow> gostring" where
  "WriteRune b r = b @ [if valid_rune r then r else 65533]"

text \<open>
  \<^verbatim>\<open>strconv.ParseInt(s, base, 32)\<close> on a string without sign: the value of the digits in
  the base; a value that does not fit 31 bits is \<open>2^31 - 1\<close> with a range error; the empty
  string and a character that is no digit of the base are syntax errors with value 0.
\<close>

definition digitVal :: "rune \<Rightarrow> int" where
  "digitVal r =
     (if 48 \<le> r \<and> r \<le> 57 then r - 48
      else if 97 \<le> r \<and> r \<le> 122 then r - 97 + 10
      else if 65 \<le> r \<and> r \<le> 90 then r - 65 + 10
      else 36)"

definition ParseInt :: "gostring \<Rightarrow> int \<Rightarrow> int \<times> error option" where
  "ParseInt s base =
     (if s = [] \<or> (\<exists>r \<in> set s. digitVal r \<ge> base)
      then (0, Some (Wrapped ''strconv.ParseInt: parsing %q: %w'' [s] strconv_ErrSyntax))
      else let v = foldl (\<lambda>n r. n * base + digitVal r) 0 s in
        if v \<ge> 2 ^ 31
        then (2 ^ 31 - 1, Some (Wrapped ''strconv.ParseInt: parsing %q: %w'' [s] strconv_ErrRange))
        else (v, None))"

section \<open>Cursor\<close>

text \<open>
  The \<^verbatim>\<open>bufio.Reader\<close> over the input: the runes not yet read, and the rune that
  \<^verbatim>\<open>UnreadRune\<close> can give back (the last operation was a \<^verbatim>\<open>ReadRune\<close> that returned it).
  The input is held in memory, so the only read error is \<^verbatim>\<open>io.EOF\<close>.  At the end of the
  input \<^verbatim>\<open>ReadRune\<close> returns the rune 0 with the error, and \<^verbatim>\<open>UnreadRune\<close> fails after it, as
  it does after another \<^verbatim>\<open>UnreadRune\<close>.  The methods of \<^verbatim>\<open>Reader\<close> that only use its
  \<^verbatim>\<open>bufio.Reader\<close> (\<^verbatim>\<open>read\<close>, \<^verbatim>\<open>unread\<close>, \<^verbatim>\<open>peek\<close>, \<^verbatim>\<open>skipBlanks\<close>, \<^verbatim>\<open>want\<close>, \<^verbatim>\<open>parseName\<close>,
  \<^verbatim>\<open>parseValue\<close> and the entity parsers) are functions of the cursor; a Go result
  \<^verbatim>\<open>(value, error)\<close> is the value, the error or \<open>None\<close> for nil, and the cursor left.
\<close>

record cursor =
  buf :: "rune list"
  lastRune :: "rune option"

definition read :: "cursor \<Rightarrow> rune \<times> error option \<times> cursor" where
  "read c =
     (case buf c of
        [] \<Rightarrow> (0, Some io_EOF, c\<lparr>lastRune := None\<rparr>)
      | x # xs \<Rightarrow> (x, None, c\<lparr>buf := xs, lastRune := Some x\<rparr>))"

definition unread :: "cursor \<Rightarrow> error option \<times> cursor" where
  "unread c =
     (case lastRune c of
        None \<Rightarrow> (Some ErrInvalidUnreadRune, c)
      | Some x \<Rightarrow> (None, c\<lparr>buf := x # buf c, lastRune := None\<rparr>))"

definition peek :: "cursor \<Rightarrow> rune \<times> cursor" where
  "peek c = (case read c of (x, _, c1) \<Rightarrow> (x, snd (unread c1)))"

definition unexpectedChar :: "rune \<Rightarrow> error" where
  "unexpectedChar c = Wrapped ''%c: %w'' [[c]] ErrChar"

function skipBlanks_loop :: "cursor \<Rightarrow> cursor" where
  "skipBlanks_loop c =
     (case read c of
        (x, err, c1) \<Rightarrow> if err \<noteq> None \<or> \<not> isBlank x then c1 else skipBlanks_loop c1)"
  by pat_completeness auto
termination
  by (relation "measure (\<lambda>c. length (buf c))") (auto simp: read_def split: list.splits)

declare skipBlanks_loop.simps [simp del]

definition skipBlanks :: "cursor \<Rightarrow> cursor" where
  "skipBlanks c = snd (unread (skipBlanks_loop c))"

definition wantFunc :: "(rune \<Rightarrow> bool) \<Rightarrow> cursor \<Rightarrow> error option \<times> cursor" where
  "wantFunc fn c =
     (case read c of
        (x, Some e, c1) \<Rightarrow> (Some e, c1)
      | (x, None, c1) \<Rightarrow> if \<not> fn x then (Some (unexpectedChar x), c1) else (None, c1))"

definition want :: "rune \<Rightarrow> cursor \<Rightarrow> error option \<times> cursor" where
  "want char c = wantFunc (\<lambda>r. r = char) c"


section \<open>Token model\<close>

text \<open>
  \<^verbatim>\<open>Name\<close>, \<^verbatim>\<open>Attr\<close> and \<^verbatim>\<open>Node\<close>.  Go embeds a \<^verbatim>\<open>Name\<close> in \<^verbatim>\<open>Attr\<close> and in \<^verbatim>\<open>Node\<close>; the
  embedded struct is the field \<open>AttrName\<close>, respectively \<open>NodeName\<close>.
\<close>

record name =
  NS :: gostring
  Name :: gostring

definition Equal :: "name \<Rightarrow> name \<Rightarrow> bool" where
  "Equal n other = (NS n = NS other \<and> Name n = Name other)"

datatype NodeType = ProcInst | BeginElement | EndElement | Text | CData | Comment

record attr =
  AttrName :: name
  Value :: gostring

record node =
  Type :: NodeType
  NodeName :: name
  Attrs :: "attr list"
  Content :: gostring
  SelfClosing :: bool

text \<open>The zero value of \<^verbatim>\<open>Name\<close>, and a \<^verbatim>\<open>Node\<close> whose fields but the type are zero.\<close>

definition zeroName :: name where
  "zeroName = \<lparr>NS = [], Name = []\<rparr>"

definition zeroNode :: "NodeType \<Rightarrow> node" where
  "zeroNode t = \<lparr>Type = t, NodeName = zeroName, Attrs = [], Content = [], SelfClosing = False\<rparr>"

section \<open>Names, entities and attribute values\<close>

text \<open>The closure \<^verbatim>\<open>parse\<close> of \<^verbatim>\<open>parseName\<close>: a letter, then name characters.\<close>

function parseName_loop :: "gostring \<Rightarrow> cursor \<Rightarrow> gostring \<times> error option \<times> cursor" where
  "parseName_loop b c =
     (case read c of
        (x, Some e, c1) \<Rightarrow> ([], Some e, c1)
      | (x, None, c1) \<Rightarrow>
          if \<not> isName x then (case unread c1 of (e, c2) \<Rightarrow> (b, e, c2))
          else parseName_loop (WriteRune b x) c1)"
  by pat_completeness auto
termination
  by (relation "measure (\<lambda>(b, c). length (buf c))") (auto simp: read_def split: list.splits)

declare parseName_loop.simps [simp del]

definition parseName_parse :: "cursor \<Rightarrow> gostring \<times> error option \<times> cursor" where
  "parseName_parse c =
     (case read c of
        (x, Some e, c1) \<Rightarrow> ([], Some e, c1)
      | (x, None, c1) \<Rightarrow>
          if \<not> isLetter x
          then ([], Some (Wrapped ''%w: name should start with a letter!'' [] (unexpectedChar x)), c1)
          else parseName_loop (WriteRune [] x) c1)"

definition parseName :: "cursor \<Rightarrow> name \<times> error option \<times> cursor" where
  "parseName c =
     (case parseName_parse c of
        (s, Some e, c1) \<Rightarrow> (\<lparr>NS = [], Name = s\<rparr>, Some e, c1)
      | (s, None, c1) \<Rightarrow>
          (case peek c1 of
             (x, c2) \<Rightarrow>
               if x \<noteq> colon then (\<lparr>NS = [], Name = s\<rparr>, None, c2)
               else (case read c2 of
                       (_, _, c3) \<Rightarrow>
                         (case parseName_parse c3 of
                            (s', err, c4) \<Rightarrow> (\<lparr>NS = s, Name = s'\<rparr>, err, c4)))))"

definition entities :: "gostring \<Rightarrow> rune option" where
  "entities = map_of
     [(runes ''quot'', dquote), (runes ''apos'', squote), (runes ''lt'', langle),
      (runes ''gt'', rangle), (runes ''amp'', ampersand)]"

abbreviation baseDec :: int where "baseDec \<equiv> 10"
abbreviation baseHex :: int where "baseHex \<equiv> 16"

function parseStringEntity_loop :: "gostring \<Rightarrow> cursor \<Rightarrow> rune \<times> error option \<times> cursor" where
  "parseStringEntity_loop b c =
     (case read c of
        (x, Some e, c1) \<Rightarrow> (0, Some e, c1)
      | (x, None, c1) \<Rightarrow>
          if x = semicolon then
            (case entities b of
               None \<Rightarrow> (0, Some (Wrapped ''%w: %s unknown entity'' [b] ErrMalformed), c1)
             | Some r \<Rightarrow> (r, None, c1))
          else if \<not> isLetter x then (0, Some (unexpectedChar x), c1)
          else parseStringEntity_loop (WriteRune b x) c1)"
  by pat_completeness auto
termination
  by (relation "measure (\<lambda>(b, c). length (buf c))") (auto simp: read_def split: list.splits)

declare parseStringEntity_loop.simps [simp del]

definition parseStringEntity :: "cursor \<Rightarrow> rune \<times> error option \<times> cursor" where
  "parseStringEntity c = parseStringEntity_loop [] (snd (unread c))"

function parseNumericEntity_loop ::
  "int \<Rightarrow> (rune \<Rightarrow> bool) \<Rightarrow> gostring \<Rightarrow> cursor \<Rightarrow> rune \<times> error option \<times> cursor" where
  "parseNumericEntity_loop base accept b c =
     (case read c of
        (x, Some e, c1) \<Rightarrow> (0, Some e, c1)
      | (x, None, c1) \<Rightarrow>
          if x = semicolon then (case ParseInt b base of (n, err) \<Rightarrow> (n, err, c1))
          else if \<not> accept x then (0, Some (unexpectedChar x), c1)
          else parseNumericEntity_loop base accept (WriteRune b x) c1)"
  by pat_completeness auto
termination
  by (relation "measure (\<lambda>(base, accept, b, c). length (buf c))")
     (auto simp: read_def split: list.splits)

declare parseNumericEntity_loop.simps [simp del]

definition parseNumericEntity :: "int \<Rightarrow> (rune \<Rightarrow> bool) \<Rightarrow> cursor \<Rightarrow> rune \<times> error option \<times> cursor" where
  "parseNumericEntity base accept c = parseNumericEntity_loop base accept [] c"

definition parseEntity :: "cursor \<Rightarrow> rune \<times> error option \<times> cursor" where
  "parseEntity c =
     (case read c of
        (x, Some e, c1) \<Rightarrow> (0, Some e, c1)
      | (x, None, c1) \<Rightarrow>
          if x = pound then
            (case read c1 of
               (y, Some e, c2) \<Rightarrow> (0, Some e, c2)
             | (y, None, c2) \<Rightarrow>
                 if y = 120 then parseNumericEntity baseHex isHex c2
                 else parseNumericEntity baseDec isDigit c2)
          else parseStringEntity c1)"


subsection \<open>How far the cursor functions move\<close>

lemma read_len: "read c = (x, e, c1) \<Longrightarrow> length (buf c1) \<le> length (buf c)"
  by (auto simp: read_def split: list.splits)

lemma read_ok_len: "read c = (x, None, c1) \<Longrightarrow> Suc (length (buf c1)) = length (buf c)"
  by (auto simp: read_def split: list.splits)

lemma read_ok_last: "read c = (x, None, c1) \<Longrightarrow> lastRune c1 = Some x"
  by (auto simp: read_def split: list.splits)

lemma read_err_last: "read c = (x, Some e, c1) \<Longrightarrow> lastRune c1 = None \<and> buf c1 = [] \<and> buf c = []"
  by (auto simp: read_def split: list.splits)

lemma unread_len: "length (buf (snd (unread c))) \<le> Suc (length (buf c))"
  by (auto simp: unread_def split: option.splits)

lemma unread_None_len: "lastRune c = None \<Longrightarrow> snd (unread c) = c"
  by (auto simp: unread_def split: option.splits)

lemma peek_buf: "buf (snd (peek c)) = buf c"
  by (auto simp: peek_def read_def unread_def split: list.splits)

lemma peek_last: "lastRune (snd (peek c)) = None"
  by (auto simp: peek_def read_def unread_def split: list.splits)

lemma skipBlanks_loop_len:
  "length (buf (skipBlanks_loop c)) < length (buf c) \<or>
   (lastRune (skipBlanks_loop c) = None \<and> buf (skipBlanks_loop c) = [] \<and> buf c = [])"
proof (induction c rule: skipBlanks_loop.induct)
  case (1 c)
  obtain x err c1 where r: "read c = (x, err, c1)"
    by (cases "read c") auto
  show ?case
  proof (cases "err \<noteq> None \<or> \<not> isBlank x")
    case True
    then have s: "skipBlanks_loop c = c1"
      using r by (subst skipBlanks_loop.simps) auto
    show ?thesis
    proof (cases err)
      case None
      then show ?thesis using r s read_ok_len [of c x c1] by simp
    next
      case (Some e)
      then show ?thesis using r s read_err_last [of c x e c1] by simp
    qed
  next
    case False
    then have e: "err = None" and b: "isBlank x" by auto
    have s: "skipBlanks_loop c = skipBlanks_loop c1"
      using r e b by (subst skipBlanks_loop.simps) simp
    have "length (buf c1) < length (buf c)"
      using r e read_ok_len [of c x c1] by simp
    moreover have "buf c \<noteq> []"
      using r e by (auto simp: read_def split: list.splits)
    ultimately show ?thesis
      using "1.IH" [OF r [symmetric] refl] False s by auto
  qed
qed

lemma skipBlanks_len: "length (buf (skipBlanks c)) \<le> length (buf c)"
  using skipBlanks_loop_len [of c] unread_len [of "skipBlanks_loop c"]
  by (auto simp: skipBlanks_def unread_None_len)

lemma wantFunc_len: "length (buf (snd (wantFunc fn c))) \<le> length (buf c)"
  by (auto simp: wantFunc_def read_def split: list.splits)

lemma want_len: "length (buf (snd (want ch c))) \<le> length (buf c)"
  by (simp add: want_def wantFunc_len)

lemma unread_after_read_len:
  "read c = (x, None, c1) \<Longrightarrow> length (buf (snd (unread c1))) = length (buf c)"
  by (auto simp: read_def unread_def split: list.splits)

lemma peek_eq_buf: "peek c1 = (x, c2) \<Longrightarrow> length (buf c2) = length (buf c1)"
  using peek_buf [of c1] by simp

lemma parseName_loop_len:
  "parseName_loop b c = (s, e, c') \<Longrightarrow> length (buf c') \<le> length (buf c)"
proof (induction b c rule: parseName_loop.induct)
  case (1 b c)
  obtain x err c1 where r: "read c = (x, err, c1)"
    by (cases "read c") auto
  show ?case
  proof (cases err)
    case (Some e')
    then show ?thesis
      using "1.prems" r read_len [OF r] by (subst (asm) parseName_loop.simps) auto
  next
    case None
    show ?thesis
    proof (cases "isName x")
      case True
      then have "parseName_loop (WriteRune b x) c1 = (s, e, c')"
        using "1.prems" r None by (subst (asm) parseName_loop.simps) simp
      then have "length (buf c') \<le> length (buf c1)"
        using "1.IH" r None True by auto
      then show ?thesis using read_len [OF r] by simp
    next
      case False
      then have "c' = snd (unread c1)"
        using "1.prems" r None by (subst (asm) parseName_loop.simps) (auto split: prod.splits)
      then show ?thesis
        using unread_after_read_len [of c x c1] r None by simp
    qed
  qed
qed

lemma parseName_parse_len:
  "parseName_parse c = (s, e, c') \<Longrightarrow> length (buf c') \<le> length (buf c)"
  by (auto simp: parseName_parse_def split: prod.splits option.splits if_splits
        dest!: read_len parseName_loop_len)

lemma parseName_parse_ok_len:
  "parseName_parse c = (s, None, c') \<Longrightarrow> length (buf c') < length (buf c)"
  by (auto simp: parseName_parse_def split: prod.splits option.splits if_splits
        dest!: read_ok_len parseName_loop_len)

lemma parseName_len:
  "parseName c = (n, e, c') \<Longrightarrow> length (buf c') \<le> length (buf c)"
  by (auto simp: parseName_def split: prod.splits option.splits if_splits
        dest!: read_len parseName_parse_len peek_eq_buf)

lemma parseName_ok_len:
  "parseName c = (n, None, c') \<Longrightarrow> length (buf c') < length (buf c)"
  by (auto simp: parseName_def split: prod.splits option.splits if_splits
        dest!: read_len parseName_parse_len parseName_parse_ok_len peek_eq_buf)


lemma parseStringEntity_loop_len:
  "parseStringEntity_loop b c = (v, e, c') \<Longrightarrow> length (buf c') \<le> length (buf c)"
proof (induction b c rule: parseStringEntity_loop.induct)
  case (1 b c)
  obtain x err c1 where r: "read c = (x, err, c1)"
    by (cases "read c") auto
  have ih: "err = None \<Longrightarrow> x \<noteq> semicolon \<Longrightarrow> isLetter x \<Longrightarrow>
      parseStringEntity_loop (WriteRune b x) c1 = (v, e, c') \<Longrightarrow> length (buf c') \<le> length (buf c1)"
    using "1.IH" r by auto
  from "1.prems" r ih read_len [OF r] show ?case
    by (subst (asm) parseStringEntity_loop.simps) (auto split: option.splits if_splits)
qed

lemma parseStringEntity_loop_nonempty_len:
  "parseStringEntity_loop b c = (v, e, c') \<Longrightarrow> buf c \<noteq> [] \<Longrightarrow> length (buf c') < length (buf c)"
  by (subst (asm) parseStringEntity_loop.simps)
     (auto simp: read_def split: option.splits if_splits list.splits
        dest!: parseStringEntity_loop_len)

lemma parseStringEntity_len:
  "parseStringEntity c = (v, e, c') \<Longrightarrow> length (buf c') \<le> length (buf c)"
proof (cases "lastRune c")
  case None
  assume "parseStringEntity c = (v, e, c')"
  then show ?thesis
    using None by (auto simp: parseStringEntity_def unread_def dest!: parseStringEntity_loop_len)
next
  case (Some a)
  assume "parseStringEntity c = (v, e, c')"
  then have "parseStringEntity_loop [] (c\<lparr>buf := a # buf c, lastRune := None\<rparr>) = (v, e, c')"
    using Some by (simp add: parseStringEntity_def unread_def)
  from parseStringEntity_loop_nonempty_len [OF this] show ?thesis by simp
qed

lemma parseNumericEntity_loop_len:
  "parseNumericEntity_loop base accept b c = (v, e, c') \<Longrightarrow> length (buf c') \<le> length (buf c)"
proof (induction base accept b c rule: parseNumericEntity_loop.induct)
  case (1 base accept b c)
  obtain x err c1 where r: "read c = (x, err, c1)"
    by (cases "read c") auto
  have ih: "err = None \<Longrightarrow> x \<noteq> semicolon \<Longrightarrow> accept x \<Longrightarrow>
      parseNumericEntity_loop base accept (WriteRune b x) c1 = (v, e, c') \<Longrightarrow>
      length (buf c') \<le> length (buf c1)"
    using "1.IH" r by auto
  from "1.prems" r ih read_len [OF r] show ?case
    by (subst (asm) parseNumericEntity_loop.simps) (auto split: option.splits if_splits prod.splits)
qed

lemma parseEntity_len:
  "parseEntity c = (v, e, c') \<Longrightarrow> length (buf c') \<le> length (buf c)"
  by (auto simp: parseEntity_def parseNumericEntity_def split: prod.splits option.splits if_splits
        dest!: read_len parseNumericEntity_loop_len parseStringEntity_len)


function parseValue_loop :: "rune \<Rightarrow> gostring \<Rightarrow> cursor \<Rightarrow> gostring \<times> error option \<times> cursor" where
  "parseValue_loop quote b c =
     (case read c of
        (x, Some e, c1) \<Rightarrow> ([], Some e, c1)
      | (x, None, c1) \<Rightarrow>
          if x = quote then (TrimSpace b, None, c1)
          else if x = ampersand then
            (case parseEntity c1 of
               (y, Some e, c2) \<Rightarrow> ([], Some e, c2)
             | (y, None, c2) \<Rightarrow> parseValue_loop quote (WriteRune b y) c2)
          else parseValue_loop quote (WriteRune b x) c1)"
  by pat_completeness auto
termination
  by (relation "measure (\<lambda>(quote, b, c). length (buf c))")
     (auto dest!: read_ok_len [OF sym] parseEntity_len [OF sym])

declare parseValue_loop.simps [simp del]

definition parseValue :: "cursor \<Rightarrow> gostring \<times> error option \<times> cursor" where
  "parseValue c =
     (case read c of
        (x, Some e, c1) \<Rightarrow> ([], Some e, c1)
      | (x, None, c1) \<Rightarrow>
          if \<not> isQuote x then ([], Some (unexpectedChar x), c1)
          else parseValue_loop x [] c1)"

lemma parseValue_loop_len:
  "parseValue_loop q b c = (v, e, c') \<Longrightarrow> length (buf c') \<le> length (buf c)"
proof (induction q b c rule: parseValue_loop.induct)
  case (1 q b c)
  obtain x err c1 where r: "read c = (x, err, c1)"
    by (cases "read c") auto
  obtain y err2 c2 where p: "parseEntity c1 = (y, err2, c2)"
    by (cases "parseEntity c1") auto
  have ih1: "err = None \<Longrightarrow> x \<noteq> q \<Longrightarrow> x = ampersand \<Longrightarrow> err2 = None \<Longrightarrow>
      parseValue_loop q (WriteRune b y) c2 = (v, e, c') \<Longrightarrow> length (buf c') \<le> length (buf c2)"
    using "1.IH"(1) r p by auto
  have ih2: "err = None \<Longrightarrow> x \<noteq> q \<Longrightarrow> x \<noteq> ampersand \<Longrightarrow>
      parseValue_loop q (WriteRune b x) c1 = (v, e, c') \<Longrightarrow> length (buf c') \<le> length (buf c1)"
    using "1.IH"(2) r by auto
  from "1.prems" r p ih1 ih2 read_len [OF r] parseEntity_len [OF p] show ?case
    by (subst (asm) parseValue_loop.simps) (auto split: option.splits if_splits)
qed

lemma parseValue_len:
  "parseValue c = (v, e, c') \<Longrightarrow> length (buf c') \<le> length (buf c)"
  by (auto simp: parseValue_def split: prod.splits option.splits if_splits
        dest!: read_len parseValue_loop_len)

section \<open>Event dispatcher\<close>

text \<open>
  A callback is a Go closure: it reads and writes the state of the program around the
  Reader, the \<open>world\<close> of type \<open>'u\<close>, and returns an error or nil.  Callbacks and the
  filter do not call back into the Reader.  The record \<open>reader\<close> is the struct \<^verbatim>\<open>Reader\<close>
  (its field \<^verbatim>\<open>last\<close> is never used and is left out) together with the world.  The slice
  that the Go loops call \<^verbatim>\<open>set\<close> is \<open>cbs\<close> here.
\<close>

type_synonym ('a, 'u) callback = "'a \<Rightarrow> 'u \<Rightarrow> error option \<times> 'u"

record 'u listeners =
  silent :: bool
  begins :: "(name, 'u) callback list"
  ends :: "(name, 'u) callback list"
  insts :: "(name, 'u) callback list"
  attrs :: "(name \<Rightarrow> gostring \<Rightarrow> 'u \<Rightarrow> error option \<times> 'u) list"
  texts :: "(gostring, 'u) callback list"
  comments :: "(gostring, 'u) callback list"

record 'u reader =
  rs :: cursor
  stack :: "name list"
  keep :: "NodeType \<Rightarrow> name \<Rightarrow> 'u \<Rightarrow> error option \<times> 'u"
  listeners :: "'u listeners"
  world :: 'u

definition checkListenerError :: "error \<Rightarrow> error option" where
  "checkListenerError err = (if errors_Is err ErrStop then None else Some err)"

text \<open>
  The loops of \<^verbatim>\<open>emitNode\<close>, \<^verbatim>\<open>emitString\<close> and \<^verbatim>\<open>emitAttr\<close>, from index \<open>i\<close>.  After
  an unsubscription Go decrements \<open>i\<close> and the loop header increments it again: the
  index stays.
\<close>

function emitNode_loop ::
  "name \<Rightarrow> (name, 'u) callback list \<Rightarrow> nat \<Rightarrow> 'u \<Rightarrow> (name, 'u) callback list \<times> error option \<times> 'u" where
  "emitNode_loop n cbs i w =
     (if i < length cbs then
        (case (cbs ! i) n w of
           (None, w') \<Rightarrow> emitNode_loop n cbs (i + 1) w'
         | (Some err, w') \<Rightarrow>
             if errors_Is err ErrUnsubscribe
             then emitNode_loop n (take i cbs @ drop (i + 1) cbs) i w'
             else (cbs, checkListenerError err, w'))
      else (cbs, None, w))"
  by pat_completeness auto
termination
  by (relation "measure (\<lambda>(n, cbs, i, w). length cbs - i)") auto

declare emitNode_loop.simps [simp del]

definition emitNode ::
  "name \<Rightarrow> (name, 'u) callback list \<Rightarrow> 'u \<Rightarrow> (name, 'u) callback list \<times> error option \<times> 'u" where
  "emitNode n cbs w = emitNode_loop n cbs 0 w"

function emitString_loop ::
  "gostring \<Rightarrow> (gostring, 'u) callback list \<Rightarrow> nat \<Rightarrow> 'u
     \<Rightarrow> (gostring, 'u) callback list \<times> error option \<times> 'u" where
  "emitString_loop str cbs i w =
     (if i < length cbs then
        (case (cbs ! i) str w of
           (None, w') \<Rightarrow> emitString_loop str cbs (i + 1) w'
         | (Some err, w') \<Rightarrow>
             if errors_Is err ErrUnsubscribe
             then emitString_loop str (take i cbs @ drop (i + 1) cbs) i w'
             else (cbs, checkListenerError err, w'))
      else (cbs, None, w))"
  by pat_completeness auto
termination
  by (relation "measure (\<lambda>(str, cbs, i, w). length cbs - i)") auto

declare emitString_loop.simps [simp del]

definition emitString ::
  "gostring \<Rightarrow> (gostring, 'u) callback list \<Rightarrow> 'u
     \<Rightarrow> (gostring, 'u) callback list \<times> error option \<times> 'u" where
  "emitString str cbs w = emitString_loop str cbs 0 w"

function emitAttr_loop ::
  "name \<Rightarrow> gostring \<Rightarrow> (name \<Rightarrow> gostring \<Rightarrow> 'u \<Rightarrow> error option \<times> 'u) list \<Rightarrow> nat \<Rightarrow> 'u
     \<Rightarrow> (name \<Rightarrow> gostring \<Rightarrow> 'u \<Rightarrow> error option \<times> 'u) list \<times> error option \<times> 'u" where
  "emitAttr_loop n str cbs i w =
     (if i < length cbs then
        (case (cbs ! i) n str w of
           (None, w') \<Rightarrow> emitAttr_loop n str cbs (i + 1) w'
         | (Some err, w') \<Rightarrow>
             if errors_Is err ErrUnsubscribe
             then emitAttr_loop n str (take i cbs @ drop (i + 1) cbs) i w'
             else (cbs, checkListenerError err, w'))
      else (cbs, None, w))"
  by pat_completeness auto
termination
  by (relation "measure (\<lambda>(n, str, cbs, i, w). length cbs - i)") auto

declare emitAttr_loop.simps [simp del]

definition emitBegin :: "name \<Rightarrow> 'u reader \<Rightarrow> error option \<times> 'u reader" where
  "emitBegin n r =
     (if silent (listeners r) then (None, r)
      else case emitNode n (begins (listeners r)) (world r) of
        (cbs, err, w) \<Rightarrow> (err, r\<lparr>listeners := (listeners r)\<lparr>begins := cbs\<rparr>, world := w\<rparr>))"

definition emitEnd :: "name \<Rightarrow> 'u reader \<Rightarrow> error option \<times> 'u reader" where
  "emitEnd n r =
     (if silent (listeners r) then (None, r)
      else case emitNode n (ends (listeners r)) (world r) of
        (cbs, err, w) \<Rightarrow> (err, r\<lparr>listeners := (listeners r)\<lparr>ends := cbs\<rparr>, world := w\<rparr>))"

definition emitInst :: "name \<Rightarrow> 'u reader \<Rightarrow> error option \<times> 'u reader" where
  "emitInst n r =
     (if silent (listeners r) then (None, r)
      else case emitNode n (insts (listeners r)) (world r) of
        (cbs, err, w) \<Rightarrow> (err, r\<lparr>listeners := (listeners r)\<lparr>insts := cbs\<rparr>, world := w\<rparr>))"

definition emitText :: "gostring \<Rightarrow> 'u reader \<Rightarrow> error option \<times> 'u reader" where
  "emitText str r =
     (if silent (listeners r) then (None, r)
      else case emitString str (texts (listeners r)) (world r) of
        (cbs, err, w) \<Rightarrow> (err, r\<lparr>listeners := (listeners r)\<lparr>texts := cbs\<rparr>, world := w\<rparr>))"

definition emitComment :: "gostring \<Rightarrow> 'u reader \<Rightarrow> error option \<times> 'u reader" where
  "emitComment str r =
     (if silent (listeners r) then (None, r)
      else case emitString str (comments (listeners r)) (world r) of
        (cbs, err, w) \<Rightarrow> (err, r\<lparr>listeners := (listeners r)\<lparr>comments := cbs\<rparr>, world := w\<rparr>))"

definition emitAttr :: "name \<Rightarrow> gostring \<Rightarrow> 'u reader \<Rightarrow> error option \<times> 'u reader" where
  "emitAttr n str r =
     (if silent (listeners r) then (None, r)
      else case emitAttr_loop n str (attrs (listeners r)) 0 (world r) of
        (cbs, err, w) \<Rightarrow> (err, r\<lparr>listeners := (listeners r)\<lparr>attrs := cbs\<rparr>, world := w\<rparr>))"


section \<open>Scanner\<close>

function parseText_loop :: "gostring \<Rightarrow> cursor \<Rightarrow> gostring \<times> error option \<times> cursor" where
  "parseText_loop b c =
     (case read c of
        (x, Some e, c1) \<Rightarrow> ([], Some e, c1)
      | (x, None, c1) \<Rightarrow>
          if x = langle then (b, None, c1)
          else if x = ampersand then
            (case parseEntity c1 of
               (y, Some e, c2) \<Rightarrow> ([], Some e, c2)
             | (y, None, c2) \<Rightarrow> parseText_loop (WriteRune b y) c2)
          else parseText_loop (WriteRune b x) c1)"
  by pat_completeness auto
termination
  by (relation "measure (\<lambda>(b, c). length (buf c))")
     (auto dest!: read_ok_len [OF sym] parseEntity_len [OF sym])

declare parseText_loop.simps [simp del]

definition parseText :: "'u reader \<Rightarrow> node option \<times> error option \<times> 'u reader" where
  "parseText r =
     (case parseText_loop [] (rs r) of
        (b, Some e, c1) \<Rightarrow> (None, Some e, r\<lparr>rs := c1\<rparr>)
      | (b, None, c1) \<Rightarrow>
          let n = (zeroNode Text)\<lparr>Content := TrimSpace b\<rparr> in
          (case emitText (Content n) (r\<lparr>rs := c1\<rparr>) of
             (Some e, r2) \<Rightarrow> (None, Some e, r2)
           | (None, r2) \<Rightarrow>
               (case unread (rs r2) of (e, c3) \<Rightarrow> (Some n, e, r2\<lparr>rs := c3\<rparr>))))"

text \<open>
  The loop of \<^verbatim>\<open>parseComment\<close>.  \<open>parseComment_hyphens\<close> is the block of the loop
  that looks for the end of the comment at the rune \<open>x\<close> just read: its first component
  says whether the loop breaks; otherwise the iteration goes on with the buffer, the
  current rune and the cursor it returns.
\<close>

definition parseComment_hyphens ::
  "gostring \<Rightarrow> rune \<Rightarrow> cursor \<Rightarrow> bool \<times> gostring \<times> rune \<times> cursor" where
  "parseComment_hyphens b x c1 =
     (if x = hyphen then
        (case peek c1 of
           (y, c2) \<Rightarrow>
             if y = x then
               (case read c2 of
                  (_, _, c3) \<Rightarrow>
                    (case read c3 of
                       (z, _, c4) \<Rightarrow>
                         if z = rangle then (True, b, z, c4)
                         else (False, WriteRune (WriteRune b hyphen) hyphen, z, c4)))
             else (False, b, x, c2))
      else (False, b, x, c1))"

lemma parseComment_hyphens_len:
  "parseComment_hyphens b x c1 = (brk, b', x', c') \<Longrightarrow> length (buf c') \<le> length (buf c1)"
  by (auto simp: parseComment_hyphens_def split: if_splits prod.splits
        dest!: peek_eq_buf read_len)

function parseComment_loop :: "gostring \<Rightarrow> cursor \<Rightarrow> gostring \<times> error option \<times> cursor" where
  "parseComment_loop b c =
     (case read c of
        (x, Some e, c1) \<Rightarrow> ([], Some e, c1)
      | (x, None, c1) \<Rightarrow>
          (case parseComment_hyphens b x c1 of
             (True, b', x', c') \<Rightarrow> (b', None, c')
           | (False, b', x', c') \<Rightarrow>
               if x' = ampersand then
                 (case parseEntity c' of
                    (y, Some e, c'') \<Rightarrow> ([], Some e, c'')
                  | (y, None, c'') \<Rightarrow> parseComment_loop (WriteRune b' y) c'')
               else parseComment_loop (WriteRune b' x') c'))"
  by pat_completeness auto
termination
  by (relation "measure (\<lambda>(b, c). length (buf c))")
     (auto dest!: read_ok_len [OF sym] parseEntity_len [OF sym] parseComment_hyphens_len [OF sym])

declare parseComment_loop.simps [simp del]

definition parseComment :: "'u reader \<Rightarrow> node option \<times> error option \<times> 'u reader" where
  "parseComment r =
     (case read (rs r) of
        (x, _, c1) \<Rightarrow>
          if x = hyphen then
            (case peek c1 of
               (y, c2) \<Rightarrow>
                 if y = x then
                   (case read c2 of
                      (_, _, c3) \<Rightarrow>
                        (case parseComment_loop [] (skipBlanks c3) of
                           (b, Some e, c4) \<Rightarrow> (None, Some e, r\<lparr>rs := c4\<rparr>)
                         | (b, None, c4) \<Rightarrow>
                             let n = (zeroNode Comment)\<lparr>SelfClosing := True, Content := TrimSpace b\<rparr> in
                             (case emitComment (Content n) (r\<lparr>rs := c4\<rparr>) of
                                (Some e, r2) \<Rightarrow> (None, Some e, r2)
                              | (None, r2) \<Rightarrow> (Some n, None, r2))))
                 else (None, Some (unexpectedChar x), r\<lparr>rs := c2\<rparr>))
          else (None, Some (unexpectedChar x), r\<lparr>rs := c1\<rparr>))"

function parseData_loop :: "gostring \<Rightarrow> cursor \<Rightarrow> gostring \<times> error option \<times> cursor" where
  "parseData_loop b c =
     (case read c of
        (x, Some e, c1) \<Rightarrow> ([], Some e, c1)
      | (x, None, c1) \<Rightarrow>
          if x = rsquare then
            (case peek c1 of
               (y, c2) \<Rightarrow>
                 if y = x then
                   (case read c2 of
                      (_, _, c3) \<Rightarrow>
                        (case read c3 of
                           (z, _, c4) \<Rightarrow>
                             if z = rangle then (b, None, c4)
                             else ([], Some (Wrapped ''%w: ]] can not appear in CDATA sections'' []
                                               ErrMalformed), c4)))
                 else parseData_loop (WriteRune b x) c2)
          else parseData_loop (WriteRune b x) c1)"
  by pat_completeness auto
termination
  by (relation "measure (\<lambda>(b, c). length (buf c))")
     (auto dest!: read_ok_len [OF sym] peek_eq_buf [OF sym])

declare parseData_loop.simps [simp del]

definition parseData :: "'u reader \<Rightarrow> node option \<times> error option \<times> 'u reader" where
  "parseData r =
     (case want lsquare (rs r) of
        (Some e, c1) \<Rightarrow> (None, Some e, r\<lparr>rs := c1\<rparr>)
      | (None, c1) \<Rightarrow>
          (case parseName c1 of
             (nm, Some e, c2) \<Rightarrow> (None, Some e, r\<lparr>rs := c2\<rparr>)
           | (nm, None, c2) \<Rightarrow>
               if Name nm \<noteq> runes ''CDATA''
               then (None, Some (Wrapped ''%w: unexpected %s! want CDATA'' [Name nm] ErrMalformed),
                     r\<lparr>rs := c2\<rparr>)
               else
                 (case want lsquare c2 of
                    (Some e, c3) \<Rightarrow> (None, Some e, r\<lparr>rs := c3\<rparr>)
                  | (None, c3) \<Rightarrow>
                      (case parseData_loop [] (skipBlanks c3) of
                         (b, Some e, c4) \<Rightarrow> (None, Some e, r\<lparr>rs := c4\<rparr>)
                       | (b, None, c4) \<Rightarrow>
                           let n = (zeroNode CData)
                                     \<lparr>SelfClosing := True, NodeName := nm, Content := TrimSpace b\<rparr> in
                           (case emitText (Content n) (r\<lparr>rs := c4\<rparr>) of
                              (Some e, r2) \<Rightarrow> (None, Some e, r2)
                            | (None, r2) \<Rightarrow> (Some n, None, r2))))))"


lemma emitAttr_rs: "emitAttr n str r = (e, r') \<Longrightarrow> rs r' = rs r"
  by (auto simp: emitAttr_def split: if_splits prod.splits)

lemma want_rel_len: "want ch c = (e, c') \<Longrightarrow> length (buf c') \<le> length (buf c)"
  using want_len [of ch c] by simp

lemma parseAttributes_loop_step:
  assumes "(x, None, b) = read c" and "(nm, None, ba) = parseName (snd (unread b))"
    and "(None, yd) = want equal (skipBlanks ba)" and "(v, None, bb) = parseValue (skipBlanks yd)"
    and "(None, yg) = emitAttr nm v (r\<lparr>rs := bb\<rparr>)"
  shows "length (buf (skipBlanks (rs yg))) < length (buf c)"
proof -
  have "length (buf (snd (unread b))) = length (buf c)"
    using assms(1) unread_after_read_len [of c x b] by simp
  moreover have "length (buf ba) < length (buf (snd (unread b)))"
    using assms(2) parseName_ok_len [of "snd (unread b)" nm ba] by simp
  moreover have "length (buf yd) \<le> length (buf (skipBlanks ba))"
    using assms(3) want_rel_len [of equal "skipBlanks ba" None yd] by simp
  moreover have "length (buf bb) \<le> length (buf (skipBlanks yd))"
    using assms(4) parseValue_len [of "skipBlanks yd" v None bb] by simp
  moreover have "rs yg = bb"
    using assms(5) emitAttr_rs [of nm v "r\<lparr>rs := bb\<rparr>" None yg] by simp
  ultimately show ?thesis
    using skipBlanks_len [of ba] skipBlanks_len [of yd] skipBlanks_len [of bb] by simp
qed

text \<open>
  The loop of \<^verbatim>\<open>parseAttributes\<close>.  The node is the \<^verbatim>\<open>*Node\<close> the loop appends the
  attributes to; it is returned with the error.
\<close>

function parseAttributes_loop ::
  "name set \<Rightarrow> node \<Rightarrow> 'u reader \<Rightarrow> node \<times> error option \<times> 'u reader" where
  "parseAttributes_loop seen n r =
     (case read (rs r) of
        (x, Some e, c1) \<Rightarrow> (n, Some e, r\<lparr>rs := c1\<rparr>)
      | (x, None, c1) \<Rightarrow>
          if \<not> isName x then (case unread c1 of (e, c2) \<Rightarrow> (n, e, r\<lparr>rs := c2\<rparr>))
          else
            (case parseName (snd (unread c1)) of
               (nm, Some e, c3) \<Rightarrow> (n, Some e, r\<lparr>rs := c3\<rparr>)
             | (nm, None, c3) \<Rightarrow>
                 if nm \<in> seen
                 then (n, Some (Wrapped ''%w: %s duplicated attribute'' [Name nm] ErrMalformed),
                       r\<lparr>rs := c3\<rparr>)
                 else
                   (case want equal (skipBlanks c3) of
                      (Some e, c4) \<Rightarrow> (n, Some e, r\<lparr>rs := c4\<rparr>)
                    | (None, c4) \<Rightarrow>
                        (case parseValue (skipBlanks c4) of
                           (v, Some e, c5) \<Rightarrow> (n, Some e, r\<lparr>rs := c5\<rparr>)
                         | (v, None, c5) \<Rightarrow>
                             let n' = n\<lparr>Attrs := Attrs n @ [\<lparr>AttrName = nm, Value = v\<rparr>]\<rparr> in
                             (case emitAttr nm v (r\<lparr>rs := c5\<rparr>) of
                                (Some e, r6) \<Rightarrow> (n', Some e, r6)
                              | (None, r6) \<Rightarrow>
                                  parseAttributes_loop (insert nm seen) n'
                                    (r6\<lparr>rs := skipBlanks (rs r6)\<rparr>))))))"
  by pat_completeness auto
termination
  by (relation "measure (\<lambda>(seen, n, r). length (buf (rs r)))")
     (auto dest: parseAttributes_loop_step)

declare parseAttributes_loop.simps [simp del]

definition parseAttributes :: "node \<Rightarrow> 'u reader \<Rightarrow> node \<times> error option \<times> 'u reader" where
  "parseAttributes n r = parseAttributes_loop {} n r"

definition parseInstruction :: "'u reader \<Rightarrow> node option \<times> error option \<times> 'u reader" where
  "parseInstruction r =
     (case parseName (rs r) of
        (nm, Some e, c1) \<Rightarrow> (None, Some e, r\<lparr>rs := c1\<rparr>)
      | (nm, None, c1) \<Rightarrow>
          (case emitInst nm (r\<lparr>rs := c1\<rparr>) of
             (Some e, r2) \<Rightarrow> (None, Some e, r2)
           | (None, r2) \<Rightarrow>
               (case parseAttributes ((zeroNode ProcInst)\<lparr>SelfClosing := True, NodeName := nm\<rparr>)
                       (r2\<lparr>rs := skipBlanks (rs r2)\<rparr>) of
                  (n, Some e, r3) \<Rightarrow> (None, Some e, r3)
                | (n, None, r3) \<Rightarrow>
                    (case want mark (rs r3) of
                       (Some e, c4) \<Rightarrow> (None, Some e, r3\<lparr>rs := c4\<rparr>)
                     | (None, c4) \<Rightarrow>
                         (case want rangle c4 of (e, c5) \<Rightarrow> (Some n, e, r3\<lparr>rs := c5\<rparr>))))))"

definition parseEndElement :: "'u reader \<Rightarrow> node option \<times> error option \<times> 'u reader" where
  "parseEndElement r =
     (case parseName (rs r) of
        (nm, Some e, c1) \<Rightarrow> (None, Some e, r\<lparr>rs := c1\<rparr>)
      | (nm, None, c1) \<Rightarrow>
          (case emitEnd nm (r\<lparr>rs := c1\<rparr>) of
             (Some e, r2) \<Rightarrow> (None, Some e, r2)
           | (None, r2) \<Rightarrow>
               (case want rangle (skipBlanks (rs r2)) of
                  (e, c3) \<Rightarrow> (Some ((zeroNode EndElement)\<lparr>NodeName := nm\<rparr>), e, r2\<lparr>rs := c3\<rparr>))))"

definition parseOpenElement :: "'u reader \<Rightarrow> node option \<times> error option \<times> 'u reader" where
  "parseOpenElement r =
     (case parseName (rs r) of
        (nm, Some e, c1) \<Rightarrow> (None, Some e, r\<lparr>rs := c1\<rparr>)
      | (nm, None, c1) \<Rightarrow>
          (case emitBegin nm (r\<lparr>rs := c1\<rparr>) of
             (Some e, r2) \<Rightarrow> (None, Some e, r2)
           | (None, r2) \<Rightarrow>
               (case parseAttributes ((zeroNode BeginElement)\<lparr>NodeName := nm\<rparr>)
                       (r2\<lparr>rs := skipBlanks (rs r2)\<rparr>) of
                  (n, Some e, r3) \<Rightarrow> (None, Some e, r3)
                | (n, None, r3) \<Rightarrow>
                    (case read (rs r3) of
                       (x, err, c4) \<Rightarrow>
                         if err \<noteq> None \<or> x = rangle then (Some n, err, r3\<lparr>rs := c4\<rparr>)
                         else if x \<noteq> slash then (None, Some (unexpectedChar x), r3\<lparr>rs := c4\<rparr>)
                         else (case want rangle c4 of
                                 (e, c5) \<Rightarrow> (Some (n\<lparr>SelfClosing := True\<rparr>), e, r3\<lparr>rs := c5\<rparr>))))))"

definition Depth :: "'u reader \<Rightarrow> nat" where
  "Depth r = length (stack r)"

definition push :: "node \<Rightarrow> 'u reader \<Rightarrow> 'u reader" where
  "push n r = (if SelfClosing n then r else r\<lparr>stack := stack r @ [NodeName n]\<rparr>)"

definition pop :: "node \<Rightarrow> 'u reader \<Rightarrow> error option \<times> 'u reader" where
  "pop n r =
     (let z = length (stack r) in
      if z = 0 then (Some (ErrorString ''stack is empty''), r)
      else let p = stack r ! (z - 1) in
        if \<not> Equal p (NodeName n)
        then (Some (Wrapped ''%w: element mismatched %s vs %s'' [Name p, Name (NodeName n)] ErrMalformed), r)
        else (None, r\<lparr>stack := take (z - 1) (stack r)\<rparr>))"

text \<open>
  \<^verbatim>\<open>parseNode\<close>.  The node and the error of the branch taken are returned after the
  blanks that follow are skipped.  A nil node with a nil error comes from no branch;
  \<^verbatim>\<open>pop\<close> and \<^verbatim>\<open>push\<close> would panic on it.
\<close>

definition parseNode :: "'u reader \<Rightarrow> node option \<times> error option \<times> 'u reader" where
  "parseNode r =
     (case read (rs r) of
        (x, Some e, c1) \<Rightarrow> (None, Some e, r\<lparr>rs := c1\<rparr>)
      | (x, None, c1) \<Rightarrow>
          (case (if x = mark then parseInstruction (r\<lparr>rs := c1\<rparr>)
                 else if x = bang then
                   (case read c1 of
                      (y, _, c2) \<Rightarrow>
                        let r2 = r\<lparr>rs := snd (unread c2)\<rparr> in
                        if y = lsquare then parseData r2
                        else if y = hyphen then parseComment r2
                        else (None, Some (unexpectedChar y), r2))
                 else if x = slash then
                   (case parseEndElement (r\<lparr>rs := c1\<rparr>) of
                      (Some n, None, r2) \<Rightarrow> (case pop n r2 of (err, r3) \<Rightarrow> (Some n, err, r3))
                    | (None, None, r2) \<Rightarrow> (None, Some NilDeref, r2)
                    | (n, Some e, r2) \<Rightarrow> (n, Some e, r2))
                 else if isLetter x then
                   (case parseOpenElement (r\<lparr>rs := snd (unread c1)\<rparr>) of
                      (Some n, None, r2) \<Rightarrow> (Some n, None, push n r2)
                    | (None, None, r2) \<Rightarrow> (None, Some NilDeref, r2)
                    | (n, Some e, r2) \<Rightarrow> (n, Some e, r2))
                 else (None, Some (unexpectedChar x), r\<lparr>rs := c1\<rparr>)) of
             (n, err, r') \<Rightarrow> (n, err, r'\<lparr>rs := skipBlanks (rs r')\<rparr>)))"

text \<open>The method \<^verbatim>\<open>next\<close>, one scan step.\<close>

definition next_node :: "'u reader \<Rightarrow> node option \<times> error option \<times> 'u reader" where
  "next_node r =
     (case read (rs r) of
        (x, Some e, c1) \<Rightarrow> (None, Some e, r\<lparr>rs := c1\<rparr>)
      | (x, None, c1) \<Rightarrow>
          if x = langle then parseNode (r\<lparr>rs := c1\<rparr>)
          else parseText (r\<lparr>rs := snd (unread c1)\<rparr>))"


subsection \<open>How far the scanner moves\<close>

lemma emitBegin_rs: "emitBegin n r = (e, r') \<Longrightarrow> rs r' = rs r"
  by (auto simp: emitBegin_def split: if_splits prod.splits)

lemma emitEnd_rs: "emitEnd n r = (e, r') \<Longrightarrow> rs r' = rs r"
  by (auto simp: emitEnd_def split: if_splits prod.splits)

lemma emitInst_rs: "emitInst n r = (e, r') \<Longrightarrow> rs r' = rs r"
  by (auto simp: emitInst_def split: if_splits prod.splits)

lemma emitText_rs: "emitText str r = (e, r') \<Longrightarrow> rs r' = rs r"
  by (auto simp: emitText_def split: if_splits prod.splits)

lemma emitComment_rs: "emitComment str r = (e, r') \<Longrightarrow> rs r' = rs r"
  by (auto simp: emitComment_def split: if_splits prod.splits)

lemma parseText_loop_len:
  "parseText_loop b c = (v, e, c') \<Longrightarrow> length (buf c') \<le> length (buf c)"
proof (induction b c rule: parseText_loop.induct)
  case (1 b c)
  obtain x err c1 where r: "read c = (x, err, c1)"
    by (cases "read c") auto
  obtain y err2 c2 where p: "parseEntity c1 = (y, err2, c2)"
    by (cases "parseEntity c1") auto
  have ih1: "err = None \<Longrightarrow> x \<noteq> langle \<Longrightarrow> x = ampersand \<Longrightarrow> err2 = None \<Longrightarrow>
      parseText_loop (WriteRune b y) c2 = (v, e, c') \<Longrightarrow> length (buf c') \<le> length (buf c2)"
    using "1.IH"(1) r p by auto
  have ih2: "err = None \<Longrightarrow> x \<noteq> langle \<Longrightarrow> x \<noteq> ampersand \<Longrightarrow>
      parseText_loop (WriteRune b x) c1 = (v, e, c') \<Longrightarrow> length (buf c') \<le> length (buf c1)"
    using "1.IH"(2) r by auto
  from "1.prems" r p ih1 ih2 read_len [OF r] parseEntity_len [OF p] show ?case
    by (subst (asm) parseText_loop.simps) (auto split: option.splits if_splits)
qed

lemma parseText_loop_ok_len:
  "parseText_loop b c = (v, None, c') \<Longrightarrow> length (buf c') < length (buf c)"
proof (induction b c rule: parseText_loop.induct)
  case (1 b c)
  obtain x err c1 where r: "read c = (x, err, c1)"
    by (cases "read c") auto
  obtain y err2 c2 where p: "parseEntity c1 = (y, err2, c2)"
    by (cases "parseEntity c1") auto
  have ih1: "err = None \<Longrightarrow> x \<noteq> langle \<Longrightarrow> x = ampersand \<Longrightarrow> err2 = None \<Longrightarrow>
      parseText_loop (WriteRune b y) c2 = (v, None, c') \<Longrightarrow> length (buf c') < length (buf c2)"
    using "1.IH"(1) r p by auto
  have ih2: "err = None \<Longrightarrow> x \<noteq> langle \<Longrightarrow> x \<noteq> ampersand \<Longrightarrow>
      parseText_loop (WriteRune b x) c1 = (v, None, c') \<Longrightarrow> length (buf c') < length (buf c1)"
    using "1.IH"(2) r by auto
  have l: "err = None \<Longrightarrow> Suc (length (buf c1)) = length (buf c)"
    using r read_ok_len by auto
  from "1.prems" r p ih1 ih2 l parseEntity_len [OF p] show ?case
    by (subst (asm) parseText_loop.simps) (auto split: option.splits if_splits)
qed

lemma parseText_loop_ok_len2:
  assumes "parseText_loop b c = (v, None, c')" and "read c = (x, None, c1)" and "x \<noteq> langle"
  shows "Suc (length (buf c')) < length (buf c)"
proof -
  obtain y err2 c2 where p: "parseEntity c1 = (y, err2, c2)"
    by (cases "parseEntity c1") auto
  from assms p parseEntity_len [OF p] read_ok_len [OF assms(2)] show ?thesis
    by (subst (asm) parseText_loop.simps)
       (auto split: option.splits if_splits dest!: parseText_loop_ok_len)
qed

lemma unread_rel_len: "unread c = (e, c') \<Longrightarrow> length (buf c') \<le> Suc (length (buf c))"
  using unread_len [of c] by simp

lemma parseText_len:
  "parseText r = (n, e, r') \<Longrightarrow> length (buf (rs r')) \<le> length (buf (rs r))"
  by (auto simp: parseText_def Let_def split: prod.splits option.splits
        dest!: parseText_loop_len parseText_loop_ok_len emitText_rs unread_rel_len)

lemma parseText_ok_len:
  assumes "parseText r = (n, None, r')" and "read (rs r) = (x, None, c1)" and "x \<noteq> langle"
  shows "length (buf (rs r')) < length (buf (rs r))"
proof -
  obtain b c2 where l: "parseText_loop [] (rs r) = (b, None, c2)"
    using assms(1) by (auto simp: parseText_def Let_def split: prod.splits option.splits)
  obtain r2 where e: "emitText (TrimSpace b) (r\<lparr>rs := c2\<rparr>) = (None, r2)"
    and r': "rs r' = snd (unread (rs r2))"
    using assms(1) l by (auto simp: parseText_def zeroNode_def Let_def split: prod.splits option.splits)
  have "rs r2 = c2" using emitText_rs [OF e] by simp
  then show ?thesis
    using parseText_loop_ok_len2 [OF l assms(2,3)] r' unread_len [of c2] by simp
qed


lemma parseComment_loop_len:
  "parseComment_loop b c = (v, e, c') \<Longrightarrow> length (buf c') \<le> length (buf c)"
proof (induction b c rule: parseComment_loop.induct)
  case (1 b c)
  obtain x err c1 where r: "read c = (x, err, c1)"
    by (cases "read c") auto
  obtain brk b' x' c2 where h: "parseComment_hyphens b x c1 = (brk, b', x', c2)"
    by (cases "parseComment_hyphens b x c1") auto
  obtain y err2 c3 where p: "parseEntity c2 = (y, err2, c3)"
    by (cases "parseEntity c2") auto
  have ih1: "err = None \<Longrightarrow> \<not> brk \<Longrightarrow> x' = ampersand \<Longrightarrow> err2 = None \<Longrightarrow>
      parseComment_loop (WriteRune b' y) c3 = (v, e, c') \<Longrightarrow> length (buf c') \<le> length (buf c3)"
    using "1.IH"(1) r h p by auto
  have ih2: "err = None \<Longrightarrow> \<not> brk \<Longrightarrow> x' \<noteq> ampersand \<Longrightarrow>
      parseComment_loop (WriteRune b' x') c2 = (v, e, c') \<Longrightarrow> length (buf c') \<le> length (buf c2)"
    using "1.IH"(2) r h by auto
  from "1.prems" r h p ih1 ih2 read_len [OF r] parseEntity_len [OF p]
    parseComment_hyphens_len [OF h] show ?case
    by (subst (asm) parseComment_loop.simps) (auto split: option.splits if_splits bool.splits)
qed

lemma parseComment_len:
  "parseComment r = (n, e, r') \<Longrightarrow> length (buf (rs r')) \<le> length (buf (rs r))"
proof -
  assume a: "parseComment r = (n, e, r')"
  obtain x err c1 where r1: "read (rs r) = (x, err, c1)"
    by (cases "read (rs r)") auto
  obtain y c2 where p: "peek c1 = (y, c2)"
    by (cases "peek c1") auto
  obtain z err3 c3 where r3: "read c2 = (z, err3, c3)"
    by (cases "read c2") auto
  obtain b err4 c4 where l: "parseComment_loop [] (skipBlanks c3) = (b, err4, c4)"
    by (cases "parseComment_loop [] (skipBlanks c3)") auto
  have "length (buf c4) \<le> length (buf (rs r))"
    using read_len [OF r1] peek_eq_buf [OF p] read_len [OF r3] skipBlanks_len [of c3]
      parseComment_loop_len [OF l] by simp
  moreover have "length (buf c2) \<le> length (buf (rs r))"
    using read_len [OF r1] peek_eq_buf [OF p] by simp
  ultimately show ?thesis
    using a r1 p r3 l read_len [OF r1]
    by (auto simp: parseComment_def Let_def split: if_splits option.splits prod.splits
          dest!: emitComment_rs)
qed

lemma parseData_loop_len:
  "parseData_loop b c = (v, e, c') \<Longrightarrow> length (buf c') \<le> length (buf c)"
proof (induction b c rule: parseData_loop.induct)
  case (1 b c)
  obtain x err c1 where r: "read c = (x, err, c1)"
    by (cases "read c") auto
  obtain y c2 where p: "peek c1 = (y, c2)"
    by (cases "peek c1") auto
  obtain z err3 c3 where r3: "read c2 = (z, err3, c3)"
    by (cases "read c2") auto
  obtain z' err4 c4 where r4: "read c3 = (z', err4, c4)"
    by (cases "read c3") auto
  have ih1: "err = None \<Longrightarrow> x = rsquare \<Longrightarrow> y \<noteq> x \<Longrightarrow>
      parseData_loop (WriteRune b x) c2 = (v, e, c') \<Longrightarrow> length (buf c') \<le> length (buf c2)"
    using "1.IH"(1) r p by auto
  have ih2: "err = None \<Longrightarrow> x \<noteq> rsquare \<Longrightarrow>
      parseData_loop (WriteRune b x) c1 = (v, e, c') \<Longrightarrow> length (buf c') \<le> length (buf c1)"
    using "1.IH"(2) r by auto
  from "1.prems" r p r3 r4 ih1 ih2 read_len [OF r] peek_eq_buf [OF p] read_len [OF r3] read_len [OF r4]
  show ?case
    by (subst (asm) parseData_loop.simps) (auto split: option.splits if_splits)
qed

lemma parseData_len:
  "parseData r = (n, e, r') \<Longrightarrow> length (buf (rs r')) \<le> length (buf (rs r))"
proof -
  assume a: "parseData r = (n, e, r')"
  obtain e1 c1 where w1: "want lsquare (rs r) = (e1, c1)"
    by (cases "want lsquare (rs r)") auto
  obtain nm e2 c2 where pn: "parseName c1 = (nm, e2, c2)"
    by (cases "parseName c1") auto
  obtain e3 c3 where w3: "want lsquare c2 = (e3, c3)"
    by (cases "want lsquare c2") auto
  obtain b e4 c4 where l: "parseData_loop [] (skipBlanks c3) = (b, e4, c4)"
    by (cases "parseData_loop [] (skipBlanks c3)") auto
  have "length (buf c1) \<le> length (buf (rs r))"
    using want_rel_len [OF w1] .
  moreover have "length (buf c2) \<le> length (buf c1)"
    using parseName_len [OF pn] .
  moreover have "length (buf c3) \<le> length (buf c2)"
    using want_rel_len [OF w3] .
  moreover have "length (buf c4) \<le> length (buf c3)"
    using parseData_loop_len [OF l] skipBlanks_len [of c3] by simp
  ultimately show ?thesis
    using a w1 pn w3 l
    by (auto simp: parseData_def Let_def split: if_splits option.splits prod.splits
          dest!: emitText_rs)
qed


lemma parseAttributes_loop_len:
  "parseAttributes_loop seen n r = (n', e, r') \<Longrightarrow> length (buf (rs r')) \<le> length (buf (rs r))"
proof (induction seen n r rule: parseAttributes_loop.induct)
  case (1 seen n r)
  obtain x err c1 where r1: "read (rs r) = (x, err, c1)"
    by (cases "read (rs r)") auto
  obtain nm e3 c3 where pn: "parseName (snd (unread c1)) = (nm, e3, c3)"
    by (cases "parseName (snd (unread c1))") auto
  obtain e4 c4 where w: "want equal (skipBlanks c3) = (e4, c4)"
    by (cases "want equal (skipBlanks c3)") auto
  obtain v e5 c5 where pv: "parseValue (skipBlanks c4) = (v, e5, c5)"
    by (cases "parseValue (skipBlanks c4)") auto
  obtain e6 r6 where em: "emitAttr nm v (r\<lparr>rs := c5\<rparr>) = (e6, r6)"
    by (cases "emitAttr nm v (r\<lparr>rs := c5\<rparr>)") auto
  have l1: "length (buf c1) \<le> length (buf (rs r))"
    using read_len [OF r1] .
  have l2: "err = None \<Longrightarrow> length (buf (snd (unread c1))) = length (buf (rs r))"
    using r1 unread_after_read_len by auto
  have l3: "length (buf c3) \<le> length (buf (snd (unread c1)))"
    using parseName_len [OF pn] .
  have l4: "length (buf c4) \<le> length (buf c3)"
    using want_rel_len [OF w] skipBlanks_len [of c3] by simp
  have l5: "length (buf c5) \<le> length (buf c4)"
    using parseValue_len [OF pv] skipBlanks_len [of c4] by simp
  have l6: "rs r6 = c5"
    using emitAttr_rs [OF em] by simp
  have ih: "err = None \<Longrightarrow> isName x \<Longrightarrow> e3 = None \<Longrightarrow> nm \<notin> seen \<Longrightarrow> e4 = None \<Longrightarrow> e5 = None \<Longrightarrow>
      e6 = None \<Longrightarrow>
      parseAttributes_loop (insert nm seen) (n\<lparr>Attrs := Attrs n @ [\<lparr>AttrName = nm, Value = v\<rparr>]\<rparr>)
        (r6\<lparr>rs := skipBlanks (rs r6)\<rparr>) = (n', e, r') \<Longrightarrow>
      length (buf (rs r')) \<le> length (buf (skipBlanks (rs r6)))"
    using "1.IH" r1 pn w pv em by auto
  from "1.prems" r1 pn w pv em ih l1 l2 l3 l4 l5 l6 skipBlanks_len [of c5] show ?case
    by (subst (asm) parseAttributes_loop.simps)
       (auto simp: Let_def split: option.splits if_splits prod.splits dest!: unread_rel_len)
qed

lemma parseInstruction_len:
  "parseInstruction r = (n, e, r') \<Longrightarrow> length (buf (rs r')) \<le> length (buf (rs r))"
proof -
  assume a: "parseInstruction r = (n, e, r')"
  obtain nm e1 c1 where pn: "parseName (rs r) = (nm, e1, c1)"
    by (cases "parseName (rs r)") auto
  obtain e2 r2 where em: "emitInst nm (r\<lparr>rs := c1\<rparr>) = (e2, r2)"
    by (cases "emitInst nm (r\<lparr>rs := c1\<rparr>)") auto
  obtain n3 e3 r3 where pa: "parseAttributes ((zeroNode ProcInst)\<lparr>SelfClosing := True, NodeName := nm\<rparr>)
       (r2\<lparr>rs := skipBlanks (rs r2)\<rparr>) = (n3, e3, r3)"
    by (cases "parseAttributes ((zeroNode ProcInst)\<lparr>SelfClosing := True, NodeName := nm\<rparr>)
       (r2\<lparr>rs := skipBlanks (rs r2)\<rparr>)") auto
  obtain e4 c4 where w4: "want mark (rs r3) = (e4, c4)"
    by (cases "want mark (rs r3)") auto
  obtain e5 c5 where w5: "want rangle c4 = (e5, c5)"
    by (cases "want rangle c4") auto
  have l1: "length (buf c1) \<le> length (buf (rs r))"
    using parseName_len [OF pn] .
  have l2: "rs r2 = c1"
    using emitInst_rs [OF em] by simp
  have l3: "length (buf (rs r3)) \<le> length (buf c1)"
    using parseAttributes_loop_len [OF pa [unfolded parseAttributes_def]] l2 skipBlanks_len [of c1]
    by simp
  have l4: "length (buf c4) \<le> length (buf (rs r3))"
    using want_rel_len [OF w4] .
  have l5: "length (buf c5) \<le> length (buf c4)"
    using want_rel_len [OF w5] .
  show ?thesis
    using a pn em pa w4 w5 l1 l2 l3 l4 l5
    by (auto simp: parseInstruction_def split: option.splits)
qed

lemma parseEndElement_len:
  "parseEndElement r = (n, e, r') \<Longrightarrow> length (buf (rs r')) \<le> length (buf (rs r))"
proof -
  assume a: "parseEndElement r = (n, e, r')"
  obtain nm e1 c1 where pn: "parseName (rs r) = (nm, e1, c1)"
    by (cases "parseName (rs r)") auto
  obtain e2 r2 where em: "emitEnd nm (r\<lparr>rs := c1\<rparr>) = (e2, r2)"
    by (cases "emitEnd nm (r\<lparr>rs := c1\<rparr>)") auto
  obtain e3 c3 where w3: "want rangle (skipBlanks (rs r2)) = (e3, c3)"
    by (cases "want rangle (skipBlanks (rs r2))") auto
  have l1: "length (buf c1) \<le> length (buf (rs r))"
    using parseName_len [OF pn] .
  have l2: "rs r2 = c1"
    using emitEnd_rs [OF em] by simp
  have l3: "length (buf c3) \<le> length (buf c1)"
    using want_rel_len [OF w3] l2 skipBlanks_len [of c1] by simp
  show ?thesis
    using a pn em w3 l1 l2 l3
    by (auto simp: parseEndElement_def split: option.splits)
qed

lemma parseOpenElement_len:
  "parseOpenElement r = (n, e, r') \<Longrightarrow> length (buf (rs r')) \<le> length (buf (rs r))"
proof -
  assume a: "parseOpenElement r = (n, e, r')"
  obtain nm e1 c1 where pn: "parseName (rs r) = (nm, e1, c1)"
    by (cases "parseName (rs r)") auto
  obtain e2 r2 where em: "emitBegin nm (r\<lparr>rs := c1\<rparr>) = (e2, r2)"
    by (cases "emitBegin nm (r\<lparr>rs := c1\<rparr>)") auto
  obtain n3 e3 r3 where pa: "parseAttributes ((zeroNode BeginElement)\<lparr>NodeName := nm\<rparr>)
       (r2\<lparr>rs := skipBlanks (rs r2)\<rparr>) = (n3, e3, r3)"
    by (cases "parseAttributes ((zeroNode BeginElement)\<lparr>NodeName := nm\<rparr>)
       (r2\<lparr>rs := skipBlanks (rs r2)\<rparr>)") auto
  obtain x e4 c4 where r4: "read (rs r3) = (x, e4, c4)"
    by (cases "read (rs r3)") auto
  obtain e5 c5 where w5: "want rangle c4 = (e5, c5)"
    by (cases "want rangle c4") auto
  have l1: "length (buf c1) \<le> length (buf (rs r))"
    using parseName_len [OF pn] .
  have l2: "rs r2 = c1"
    using emitBegin_rs [OF em] by simp
  have l3: "length (buf (rs r3)) \<le> length (buf c1)"
    using parseAttributes_loop_len [OF pa [unfolded parseAttributes_def]] l2 skipBlanks_len [of c1]
    by simp
  have l4: "length (buf c4) \<le> length (buf (rs r3))"
    using read_len [OF r4] .
  have l5: "length (buf c5) \<le> length (buf c4)"
    using want_rel_len [OF w5] .
  show ?thesis
    using a pn em pa r4 w5 l1 l2 l3 l4 l5
    by (auto simp: parseOpenElement_def split: option.splits if_splits)
qed

lemma pop_rs: "pop n r = (e, r') \<Longrightarrow> rs r' = rs r"
  by (auto simp: pop_def Let_def split: if_splits)

lemma push_rs: "rs (push n r) = rs r"
  by (simp add: push_def)


lemma parseNode_len:
  "parseNode r = (n, e, r') \<Longrightarrow> length (buf (rs r')) \<le> length (buf (rs r))"
proof -
  assume a: "parseNode r = (n, e, r')"
  obtain x e1 c1 where r1: "read (rs r) = (x, e1, c1)"
    by (cases "read (rs r)") auto
  show ?thesis
  proof (cases e1)
    case (Some err)
    then show ?thesis
      using a r1 read_len [OF r1] by (auto simp: parseNode_def)
  next
    case None
    have l1: "length (buf c1) \<le> length (buf (rs r))"
      using read_len [OF r1] .
    have l1': "length (buf (snd (unread c1))) \<le> length (buf (rs r))"
      using r1 None unread_after_read_len [of "rs r" x c1] by simp
    obtain y e2 c2 where r2: "read c1 = (y, e2, c2)"
      by (cases "read c1") auto
    have l2: "length (buf (snd (unread c2))) \<le> length (buf (rs r))"
    proof (cases e2)
      case None
      then show ?thesis
        using r2 unread_after_read_len [of c1 y c2] l1 by simp
    next
      case (Some err)
      then show ?thesis
        using read_err_last [of c1 y err c2] r2 by (simp add: unread_None_len)
    qed
    define br where "br =
      (if x = mark then parseInstruction (r\<lparr>rs := c1\<rparr>)
       else if x = bang then
         (case read c1 of
            (y, _, c2) \<Rightarrow>
              let r2 = r\<lparr>rs := snd (unread c2)\<rparr> in
              if y = lsquare then parseData r2
              else if y = hyphen then parseComment r2
              else (None, Some (unexpectedChar y), r2))
       else if x = slash then
         (case parseEndElement (r\<lparr>rs := c1\<rparr>) of
            (Some n, None, r2) \<Rightarrow> (case pop n r2 of (err, r3) \<Rightarrow> (Some n, err, r3))
          | (None, None, r2) \<Rightarrow> (None, Some NilDeref, r2)
          | (n, Some e, r2) \<Rightarrow> (n, Some e, r2))
       else if isLetter x then
         (case parseOpenElement (r\<lparr>rs := snd (unread c1)\<rparr>) of
            (Some n, None, r2) \<Rightarrow> (Some n, None, push n r2)
          | (None, None, r2) \<Rightarrow> (None, Some NilDeref, r2)
          | (n, Some e, r2) \<Rightarrow> (n, Some e, r2))
       else (None, Some (unexpectedChar x), r\<lparr>rs := c1\<rparr>))"
    obtain n0 e0 r0 where br: "br = (n0, e0, r0)"
      by (cases br) auto
    have "length (buf (rs r0)) \<le> length (buf (rs r))"
      using br l1 l1' l2 r2 unfolding br_def
      by (auto simp: Let_def push_rs split: if_splits prod.splits option.splits
            dest!: parseInstruction_len parseData_len parseComment_len parseEndElement_len
              parseOpenElement_len pop_rs)
    moreover have "rs r' = skipBlanks (rs r0)"
      using a r1 None br unfolding parseNode_def br_def by auto
    ultimately show ?thesis
      using skipBlanks_len [of "rs r0"] by simp
  qed
qed

lemma next_node_ok_len:
  "next_node r = (n, None, r') \<Longrightarrow> length (buf (rs r')) < length (buf (rs r))"
proof -
  assume a: "next_node r = (n, None, r')"
  obtain x e1 c1 where r1: "read (rs r) = (x, e1, c1)"
    by (cases "read (rs r)") auto
  have e1: "e1 = None"
    using a r1 by (cases e1) (auto simp: next_node_def)
  show ?thesis
  proof (cases "x = langle")
    case True
    then have "parseNode (r\<lparr>rs := c1\<rparr>) = (n, None, r')"
      using a r1 e1 by (simp add: next_node_def)
    from parseNode_len [OF this] read_ok_len [of "rs r" x c1] r1 e1 show ?thesis
      by simp
  next
    case False
    let ?r = "r\<lparr>rs := snd (unread c1)\<rparr>"
    have p: "parseText ?r = (n, None, r')"
      using a r1 e1 False by (simp add: next_node_def)
    have u: "snd (unread c1) = (rs r)\<lparr>lastRune := None\<rparr>"
      using r1 e1 by (auto simp: read_def unread_def split: list.splits)
    have "read (rs ?r) = (x, None, c1)"
      using r1 e1 u by (auto simp: read_def split: list.splits)
    from parseText_ok_len [OF p this False] u show ?thesis
      by simp
  qed
qed


section \<open>Pull Reader\<close>

text \<open>The method \<^verbatim>\<open>silent\<close> toggles the flag \<^verbatim>\<open>listeners.silent\<close>.\<close>

definition silent_toggle :: "'u reader \<Rightarrow> 'u reader" where
  "silent_toggle r = r\<lparr>listeners := (listeners r)\<lparr>silent := \<not> silent (listeners r)\<rparr>\<rparr>"

text \<open>\<^verbatim>\<open>errors.Is\<close> on an error that may be nil.\<close>

definition errIs :: "error option \<Rightarrow> error \<Rightarrow> bool" where
  "errIs err target = (case err of None \<Rightarrow> False | Some e \<Rightarrow> errors_Is e target)"

function skipSubtree_loop :: "node \<Rightarrow> nat \<Rightarrow> 'u reader \<Rightarrow> error option \<times> 'u reader" where
  "skipSubtree_loop n depth r =
     (case next_node r of
        (c, Some e, r1) \<Rightarrow> (Some e, r1)
      | (None, None, r1) \<Rightarrow> (Some NilDeref, r1)
      | (Some c, None, r1) \<Rightarrow>
          if Depth r1 = depth \<and> Equal (NodeName n) (NodeName c) then (None, r1)
          else skipSubtree_loop n depth r1)"
  by pat_completeness auto
termination
  by (relation "measure (\<lambda>(n, depth, r). length (buf (rs r)))")
     (auto dest!: next_node_ok_len [OF sym])

declare skipSubtree_loop.simps [simp del]

text \<open>
  \<^verbatim>\<open>skipSubtree\<close>: the deferred second \<^verbatim>\<open>r.silent()\<close> runs on every return after the
  first one.
\<close>

definition skipSubtree :: "node \<Rightarrow> 'u reader \<Rightarrow> error option \<times> 'u reader" where
  "skipSubtree n r =
     (if Type n \<noteq> BeginElement \<or> SelfClosing n then (None, r)
      else
        let r1 = silent_toggle r;
            depth = Depth r1
        in (case skipSubtree_loop n depth r1 of (err, r2) \<Rightarrow> (err, silent_toggle r2)))"

lemma skipSubtree_loop_ok_len:
  "skipSubtree_loop n depth r = (None, r') \<Longrightarrow> length (buf (rs r')) < length (buf (rs r))"
proof (induction n depth r rule: skipSubtree_loop.induct)
  case (1 n depth r)
  obtain c e r1 where nx: "next_node r = (c, e, r1)"
    by (cases "next_node r") auto
  have ih: "\<And>c'. e = None \<Longrightarrow> c = Some c' \<Longrightarrow> \<not> (Depth r1 = depth \<and> Equal (NodeName n) (NodeName c')) \<Longrightarrow>
      skipSubtree_loop n depth r1 = (None, r') \<Longrightarrow> length (buf (rs r')) < length (buf (rs r1))"
    using "1.IH" nx by auto
  have l: "e = None \<Longrightarrow> length (buf (rs r1)) < length (buf (rs r))"
    using nx next_node_ok_len by auto
  from "1.prems" nx ih l show ?case
    by (subst (asm) skipSubtree_loop.simps) (auto split: option.splits if_splits)
qed

lemma silent_toggle_rs: "rs (silent_toggle r) = rs r"
  by (simp add: silent_toggle_def)

lemma skipSubtree_ok_len:
  "skipSubtree n r = (None, r') \<Longrightarrow> length (buf (rs r')) \<le> length (buf (rs r))"
  by (auto simp: skipSubtree_def Let_def silent_toggle_rs split: if_splits prod.splits
        dest!: skipSubtree_loop_ok_len)

lemma Read_step_ignore:
  assumes "(Some n, None, r1) = next_node r" and "(None, r3) = skipSubtree n (r1\<lparr>world := w\<rparr>)"
  shows "length (buf (rs r3)) < length (buf (rs r))"
  using next_node_ok_len [OF assms(1) [symmetric]] skipSubtree_ok_len [OF assms(2) [symmetric]]
  by simp

function Read :: "'u reader \<Rightarrow> node option \<times> error option \<times> 'u reader" where
  "Read r =
     (case next_node r of
        (n, Some e, r1) \<Rightarrow> (None, Some e, r1)
      | (None, None, r1) \<Rightarrow> (None, Some NilDeref, r1)
      | (Some n, None, r1) \<Rightarrow>
          (case keep r1 (Type n) (NodeName n) (world r1) of
             (err, w) \<Rightarrow>
               let r2 = r1\<lparr>world := w\<rparr> in
               if errIs err ErrIgnore then
                 (case skipSubtree n r2 of
                    (Some e, r3) \<Rightarrow> (None, Some e, r3)
                  | (None, r3) \<Rightarrow> Read r3)
               else if errIs err ErrSkip then Read r2
               else (Some n, err, r2)))"
  by pat_completeness auto
termination
  by (relation "measure (\<lambda>r. length (buf (rs r)))")
     (auto dest: Read_step_ignore next_node_ok_len [OF sym])

declare Read.simps [simp del]


text \<open>\<^verbatim>\<open>Run\<close> reads to the end of the input; \<^verbatim>\<open>io.EOF\<close> is success.\<close>

lemma Read_ok_len:
  "Read r = (n, None, r') \<Longrightarrow> length (buf (rs r')) < length (buf (rs r))"
proof (induction r rule: Read.induct)
  case (1 r)
  obtain c e r1 where nx: "next_node r = (c, e, r1)"
    by (cases "next_node r") auto
  show ?case
  proof (cases "e = None \<and> c \<noteq> None")
    case False
    then show ?thesis
      using "1.prems" nx by (subst (asm) Read.simps) (auto split: option.splits)
  next
    case True
    then obtain m where c: "c = Some m" and e: "e = None"
      by auto
    obtain err w where k: "keep r1 (Type m) (NodeName m) (world r1) = (err, w)"
      by (cases "keep r1 (Type m) (NodeName m) (world r1)") auto
    obtain e3 r3 where sk: "skipSubtree m (r1\<lparr>world := w\<rparr>) = (e3, r3)"
      by (cases "skipSubtree m (r1\<lparr>world := w\<rparr>)") auto
    have l1: "length (buf (rs r1)) < length (buf (rs r))"
      using nx e next_node_ok_len by auto
    have l3: "e3 = None \<Longrightarrow> length (buf (rs r3)) \<le> length (buf (rs r1))"
      using sk skipSubtree_ok_len [of m "r1\<lparr>world := w\<rparr>" r3] by auto
    have ih1: "errIs err ErrIgnore \<Longrightarrow> e3 = None \<Longrightarrow> Read r3 = (n, None, r') \<Longrightarrow>
        length (buf (rs r')) < length (buf (rs r3))"
      using "1.IH"(1) nx c e k sk by auto
    have ih2: "\<not> errIs err ErrIgnore \<Longrightarrow> errIs err ErrSkip \<Longrightarrow> Read (r1\<lparr>world := w\<rparr>) = (n, None, r') \<Longrightarrow>
        length (buf (rs r')) < length (buf (rs r1))"
      using "1.IH"(2) nx c e k by auto
    from "1.prems" nx c e k sk l1 l3 ih1 ih2 show ?thesis
      by (subst (asm) Read.simps) (auto simp: Let_def split: option.splits if_splits)
  qed
qed

function Run :: "'u reader \<Rightarrow> error option \<times> 'u reader" where
  "Run r =
     (case Read r of
        (_, Some err, r1) \<Rightarrow> (if errors_Is err io_EOF then None else Some err, r1)
      | (_, None, r1) \<Rightarrow> Run r1)"
  by pat_completeness auto
termination
  by (relation "measure (\<lambda>r. length (buf (rs r)))") (auto dest!: Read_ok_len [OF sym])

declare Run.simps [simp del]

text \<open>
  \<^verbatim>\<open>New\<close>: a nil filter is \<^verbatim>\<open>keepAll\<close>.  The world is the state of the program when
  the Reader is made.  The registration methods append to the lists of the dispatcher.
\<close>

definition keepAll :: "NodeType \<Rightarrow> name \<Rightarrow> 'u \<Rightarrow> error option \<times> 'u" where
  "keepAll t n w = (None, w)"

definition New ::
  "rune list \<Rightarrow> (NodeType \<Rightarrow> name \<Rightarrow> 'u \<Rightarrow> error option \<times> 'u) option \<Rightarrow> 'u \<Rightarrow> 'u reader" where
  "New input kp w =
     \<lparr>rs = skipBlanks \<lparr>buf = input, lastRune = None\<rparr>,
      stack = [],
      keep = (case kp of None \<Rightarrow> keepAll | Some k \<Rightarrow> k),
      listeners = \<lparr>silent = False, begins = [], ends = [], insts = [], attrs = [],
                   texts = [], comments = []\<rparr>,
      world = w\<rparr>"

definition OnBeginElement :: "(name, 'u) callback \<Rightarrow> 'u reader \<Rightarrow> 'u reader" where
  "OnBeginElement fn r = r\<lparr>listeners := (listeners r)\<lparr>begins := begins (listeners r) @ [fn]\<rparr>\<rparr>"

definition OnEndElement :: "(name, 'u) callback \<Rightarrow> 'u reader \<Rightarrow> 'u reader" where
  "OnEndElement fn r = r\<lparr>listeners := (listeners r)\<lparr>ends := ends (listeners r) @ [fn]\<rparr>\<rparr>"

definition OnInstruction :: "(name, 'u) callback \<Rightarrow> 'u reader \<Rightarrow> 'u reader" where
  "OnInstruction fn r = r\<lparr>listeners := (listeners r)\<lparr>insts := insts (listeners r) @ [fn]\<rparr>\<rparr>"

definition OnAttribute ::
  "(name \<Rightarrow> gostring \<Rightarrow> 'u \<Rightarrow> error option \<times> 'u) \<Rightarrow> 'u reader \<Rightarrow> 'u reader" where
  "OnAttribute fn r = r\<lparr>listeners := (listeners r)\<lparr>attrs := attrs (listeners r) @ [fn]\<rparr>\<rparr>"

definition OnText :: "(gostring, 'u) callback \<Rightarrow> 'u reader \<Rightarrow> 'u reader" where
  "OnText fn r = r\<lparr>listeners := (listeners r)\<lparr>texts := texts (listeners r) @ [fn]\<rparr>\<rparr>"

definition OnComment :: "(gostring, 'u) callback \<Rightarrow> 'u reader \<Rightarrow> 'u reader" where
  "OnComment fn r = r\<lparr>listeners := (listeners r)\<lparr>comments := comments (listeners r) @ [fn]\<rparr>\<rparr>"

section \<open>Specification-level definitions and example inputs\<close>

text \<open>
  The dispatch of one event as the specification words it: the callbacks are invoked in
  registration order; one that unsubscribes is removed and the round goes on with the
  next; one that stops ends the round with success; any other error ends the round and
  is returned.
\<close>

fun dispatch ::
  "'a \<Rightarrow> ('a, 'u) callback list \<Rightarrow> 'u \<Rightarrow> ('a, 'u) callback list \<times> error option \<times> 'u" where
  "dispatch x [] w = ([], None, w)"
| "dispatch x (f # fs) w =
     (case f x w of
        (None, w') \<Rightarrow> (case dispatch x fs w' of (fs', e, w'') \<Rightarrow> (f # fs', e, w''))
      | (Some err, w') \<Rightarrow>
          if errors_Is err ErrUnsubscribe then dispatch x fs w'
          else if errors_Is err ErrStop then (f # fs, None, w')
          else (f # fs, Some err, w'))"

text \<open>
  The events of an open tag as the specification words them: the begin-element event of the element,
  then one attribute event per attribute, in order, each dispatched to the registered
  callbacks.  The dispatcher is the pair of the registration lists and the world.
\<close>

definition dispatch_begin :: "name \<Rightarrow> 'u listeners \<times> 'u \<Rightarrow> 'u listeners \<times> 'u" where
  "dispatch_begin n lw =
     (case emitNode n (begins (fst lw)) (snd lw) of (cbs, e, w) \<Rightarrow> ((fst lw)\<lparr>begins := cbs\<rparr>, w))"

definition dispatch_attr :: "attr \<Rightarrow> 'u listeners \<times> 'u \<Rightarrow> 'u listeners \<times> 'u" where
  "dispatch_attr a lw =
     (case emitAttr_loop (AttrName a) (Value a) (attrs (fst lw)) 0 (snd lw) of
        (cbs, e, w) \<Rightarrow> ((fst lw)\<lparr>attrs := cbs\<rparr>, w))"

definition open_events :: "node \<Rightarrow> 'u listeners \<times> 'u \<Rightarrow> 'u listeners \<times> 'u" where
  "open_events n lw = foldl (\<lambda>lw a. dispatch_attr a lw) (dispatch_begin (NodeName n) lw) (Attrs n)"

text \<open>\<open>has_rsquares s\<close>: two \<^verbatim>\<open>]\<close> stand side by side in \<open>s\<close>.\<close>

fun has_rsquares :: "rune list \<Rightarrow> bool" where
  "has_rsquares (x # y # zs) = ((x = rsquare \<and> y = rsquare) \<or> has_rsquares (y # zs))"
| "has_rsquares _ = False"

text \<open>The token of a CDATA section with content \<open>cs\<close>.\<close>

definition cdataNode :: "gostring \<Rightarrow> node" where
  "cdataNode cs =
     \<lparr>Type = CData, NodeName = \<lparr>NS = [], Name = runes ''CDATA''\<rparr>, Attrs = [],
      Content = TrimSpace cs, SelfClosing = True\<rparr>"

subsection \<open>Observers and filters for the examples\<close>

text \<open>
  A world that records the events dispatched to it, one recording callback per category,
  and a Reader over a document with all six registered.
\<close>

datatype event =
    EvBegin name | EvEnd name | EvInst name | EvAttr name gostring
  | EvText gostring | EvComment gostring

definition record_begin :: "(name, event list) callback" where
  "record_begin n w = (None, w @ [EvBegin n])"

definition record_end :: "(name, event list) callback" where
  "record_end n w = (None, w @ [EvEnd n])"

definition record_inst :: "(name, event list) callback" where
  "record_inst n w = (None, w @ [EvInst n])"

definition record_attr :: "name \<Rightarrow> gostring \<Rightarrow> event list \<Rightarrow> error option \<times> event list" where
  "record_attr n v w = (None, w @ [EvAttr n v])"

definition record_text :: "(gostring, event list) callback" where
  "record_text s w = (None, w @ [EvText s])"

definition record_comment :: "(gostring, event list) callback" where
  "record_comment s w = (None, w @ [EvComment s])"

definition observed ::
  "string \<Rightarrow> (NodeType \<Rightarrow> name \<Rightarrow> event list \<Rightarrow> error option \<times> event list) option
     \<Rightarrow> event list reader" where
  "observed doc kp =
     OnComment record_comment (OnText record_text (OnAttribute record_attr
       (OnInstruction record_inst (OnEndElement record_end (OnBeginElement record_begin
         (New (runes doc) kp []))))))"

text \<open>The filter that answers \<^verbatim>\<open>ErrIgnore\<close> for the begin-elements of one local name.\<close>

definition ignore_element :: "string \<Rightarrow> NodeType \<Rightarrow> name \<Rightarrow> 'u \<Rightarrow> error option \<times> 'u" where
  "ignore_element s t n w =
     (if t = BeginElement \<and> Name n = runes s then Some ErrIgnore else None, w)"

definition local :: "string \<Rightarrow> name" where
  "local s = \<lparr>NS = [], Name = runes s\<rparr>"

text \<open>
  A callback that appends its number to the world and returns a fixed outcome, and a
  Reader with five of them registered for the begin-elements.
\<close>

definition counted :: "nat \<Rightarrow> error option \<Rightarrow> (name, nat list) callback" where
  "counted k err n w = (err, w @ [k])"

definition counting :: "nat list reader" where
  "counting =
     OnBeginElement (counted 5 None) (OnBeginElement (counted 4 (Some ErrStop))
       (OnBeginElement (counted 3 None) (OnBeginElement (counted 2 (Some ErrUnsubscribe))
         (OnBeginElement (counted 1 None) (New [] None [])))))"

section \<open>Properties of the scanner\<close>

subsection \<open>What the scanner leaves alone\<close>

lemma emitBegin_frame:
  "emitBegin n r = (e, r') \<Longrightarrow>
     stack r' = stack r \<and> keep r' = keep r \<and> silent (listeners r') = silent (listeners r)"
  by (auto simp: emitBegin_def split: if_splits prod.splits)

lemma emitEnd_frame:
  "emitEnd n r = (e, r') \<Longrightarrow>
     stack r' = stack r \<and> keep r' = keep r \<and> silent (listeners r') = silent (listeners r)"
  by (auto simp: emitEnd_def split: if_splits prod.splits)

lemma emitAttr_frame:
  "emitAttr n v r = (e, r') \<Longrightarrow>
     stack r' = stack r \<and> keep r' = keep r \<and> silent (listeners r') = silent (listeners r)"
  by (auto simp: emitAttr_def split: if_splits prod.splits)

lemma parseAttributes_loop_frame:
  "parseAttributes_loop seen n r = (n', e, r') \<Longrightarrow>
     stack r' = stack r \<and> keep r' = keep r \<and> silent (listeners r') = silent (listeners r)
     \<and> Type n' = Type n \<and> NodeName n' = NodeName n \<and> SelfClosing n' = SelfClosing n"
proof (induction seen n r rule: parseAttributes_loop.induct)
  case (1 seen n r)
  obtain x err c1 where r1: "read (rs r) = (x, err, c1)"
    by (cases "read (rs r)") auto
  obtain nm e3 c3 where pn: "parseName (snd (unread c1)) = (nm, e3, c3)"
    by (cases "parseName (snd (unread c1))") auto
  obtain e4 c4 where w: "want equal (skipBlanks c3) = (e4, c4)"
    by (cases "want equal (skipBlanks c3)") auto
  obtain v e5 c5 where pv: "parseValue (skipBlanks c4) = (v, e5, c5)"
    by (cases "parseValue (skipBlanks c4)") auto
  obtain e6 r6 where em: "emitAttr nm v (r\<lparr>rs := c5\<rparr>) = (e6, r6)"
    by (cases "emitAttr nm v (r\<lparr>rs := c5\<rparr>)") auto
  let ?n = "n\<lparr>Attrs := Attrs n @ [\<lparr>AttrName = nm, Value = v\<rparr>]\<rparr>"
  let ?r = "r6\<lparr>rs := skipBlanks (rs r6)\<rparr>"
  have ih: "err = None \<Longrightarrow> isName x \<Longrightarrow> e3 = None \<Longrightarrow> nm \<notin> seen \<Longrightarrow> e4 = None \<Longrightarrow> e5 = None \<Longrightarrow>
      e6 = None \<Longrightarrow> parseAttributes_loop (insert nm seen) ?n ?r = (n', e, r') \<Longrightarrow>
      stack r' = stack ?r \<and> keep r' = keep ?r \<and> silent (listeners r') = silent (listeners ?r)
      \<and> Type n' = Type ?n \<and> NodeName n' = NodeName ?n \<and> SelfClosing n' = SelfClosing ?n"
    using "1.IH" r1 pn w pv em by auto
  from "1.prems" r1 pn w pv em ih emitAttr_frame [OF em] show ?case
    by (subst (asm) parseAttributes_loop.simps)
       (auto simp: Let_def split: option.splits if_splits prod.splits)
qed

lemma parseOpenElement_frame:
  "parseOpenElement r = (Some n, e, r') \<Longrightarrow>
     stack r' = stack r \<and> keep r' = keep r \<and> silent (listeners r') = silent (listeners r)
     \<and> Type n = BeginElement"
proof -
  assume a: "parseOpenElement r = (Some n, e, r')"
  obtain nm e1 c1 where pn: "parseName (rs r) = (nm, e1, c1)"
    by (cases "parseName (rs r)") auto
  obtain e2 r2 where em: "emitBegin nm (r\<lparr>rs := c1\<rparr>) = (e2, r2)"
    by (cases "emitBegin nm (r\<lparr>rs := c1\<rparr>)") auto
  obtain n3 e3 r3 where pa: "parseAttributes_loop {} ((zeroNode BeginElement)\<lparr>NodeName := nm\<rparr>)
       (r2\<lparr>rs := skipBlanks (rs r2)\<rparr>) = (n3, e3, r3)"
    by (cases "parseAttributes_loop {} ((zeroNode BeginElement)\<lparr>NodeName := nm\<rparr>)
       (r2\<lparr>rs := skipBlanks (rs r2)\<rparr>)") auto
  show ?thesis
    using a pn em pa emitBegin_frame [OF em] parseAttributes_loop_frame [OF pa]
    by (auto simp: parseOpenElement_def parseAttributes_def zeroNode_def
          split: option.splits if_splits prod.splits)
qed

lemma parseOpenElement_depth:
  "parseOpenElement r = (Some n, e, r') \<Longrightarrow> Depth (push n r') = Depth r + (if SelfClosing n then 0 else 1)"
  by (auto simp: Depth_def push_def dest!: parseOpenElement_frame)

lemma parseInstruction_Type: "parseInstruction r = (Some n, e, r') \<Longrightarrow> Type n = ProcInst"
proof -
  assume a: "parseInstruction r = (Some n, e, r')"
  obtain nm e1 c1 where pn: "parseName (rs r) = (nm, e1, c1)"
    by (cases "parseName (rs r)") auto
  obtain e2 r2 where em: "emitInst nm (r\<lparr>rs := c1\<rparr>) = (e2, r2)"
    by (cases "emitInst nm (r\<lparr>rs := c1\<rparr>)") auto
  obtain n3 e3 r3 where pa: "parseAttributes_loop {} ((zeroNode ProcInst)\<lparr>SelfClosing := True, NodeName := nm\<rparr>)
       (r2\<lparr>rs := skipBlanks (rs r2)\<rparr>) = (n3, e3, r3)"
    by (cases "parseAttributes_loop {} ((zeroNode ProcInst)\<lparr>SelfClosing := True, NodeName := nm\<rparr>)
       (r2\<lparr>rs := skipBlanks (rs r2)\<rparr>)") auto
  show ?thesis
    using a pn em pa parseAttributes_loop_frame [OF pa]
    by (auto simp: parseInstruction_def parseAttributes_def zeroNode_def
          split: option.splits if_splits prod.splits)
qed

lemma parseData_Type: "parseData r = (Some n, e, r') \<Longrightarrow> Type n = CData"
  by (auto simp: parseData_def zeroNode_def Let_def split: option.splits if_splits prod.splits)

lemma parseComment_Type: "parseComment r = (Some n, e, r') \<Longrightarrow> Type n = Comment"
  by (auto simp: parseComment_def zeroNode_def Let_def split: option.splits if_splits prod.splits)

lemma parseEndElement_Type: "parseEndElement r = (Some n, e, r') \<Longrightarrow> Type n = EndElement"
  by (auto simp: parseEndElement_def zeroNode_def Let_def split: option.splits if_splits prod.splits)

lemma parseText_Type: "parseText r = (Some n, e, r') \<Longrightarrow> Type n = Text"
  by (auto simp: parseText_def zeroNode_def Let_def split: option.splits if_splits prod.splits)

lemma parseNode_begin_depth:
  assumes "parseNode r = (Some n, None, r')" and "Type n = BeginElement"
  shows "Depth r' = Depth r + (if SelfClosing n then 0 else 1)"
proof -
  obtain x e1 c1 where r1: "read (rs r) = (x, e1, c1)"
    by (cases "read (rs r)") auto
  have e1: "e1 = None"
    using assms(1) r1 by (cases e1) (auto simp: parseNode_def)
  have nm: "x \<noteq> mark"
    using assms r1 e1
    by (auto simp: parseNode_def split: prod.splits dest!: parseInstruction_Type)
  have nb: "x \<noteq> bang"
    using assms r1 e1
    by (auto simp: parseNode_def Let_def split: prod.splits if_splits
          dest!: parseData_Type parseComment_Type)
  have ns: "x \<noteq> slash"
    using assms r1 e1 nm nb
    by (auto simp: parseNode_def Let_def split: prod.splits if_splits option.splits
          dest!: parseEndElement_Type)
  have il: "isLetter x"
    using assms r1 e1 nm nb ns
    by (auto simp: parseNode_def Let_def split: prod.splits if_splits option.splits)
  obtain r2 where po: "parseOpenElement (r\<lparr>rs := snd (unread c1)\<rparr>) = (Some n, None, r2)"
    and r': "r' = (push n r2)\<lparr>rs := skipBlanks (rs (push n r2))\<rparr>"
    using assms r1 e1 nm nb ns il
    by (auto simp: parseNode_def Let_def split: prod.splits if_splits option.splits)
  show ?thesis
    using parseOpenElement_depth [OF po] r' by (simp add: Depth_def)
qed

lemma rs_update_Depth: "Depth (r\<lparr>rs := c\<rparr>) = Depth r"
  by (simp add: Depth_def)

lemma next_node_begin_depth:
  assumes "next_node r = (Some n, None, r')" and "Type n = BeginElement"
  shows "Depth r' = Depth r + (if SelfClosing n then 0 else 1)"
proof -
  obtain x e1 c1 where r1: "read (rs r) = (x, e1, c1)"
    by (cases "read (rs r)") auto
  have e1: "e1 = None"
    using assms(1) r1 by (cases e1) (auto simp: next_node_def)
  have "x = langle"
    using assms r1 e1 by (auto simp: next_node_def split: if_splits dest!: parseText_Type)
  then have "parseNode (r\<lparr>rs := c1\<rparr>) = (Some n, None, r')"
    using assms(1) r1 e1 by (simp add: next_node_def)
  from parseNode_begin_depth [OF this assms(2)] show ?thesis
    by (simp add: rs_update_Depth)
qed

lemma Read_from_scan_step:
  "Read r = (Some n, e, r') \<Longrightarrow> \<exists>r0 r1 w. next_node r0 = (Some n, None, r1) \<and> r' = r1\<lparr>world := w\<rparr>"
proof (induction r rule: Read.induct)
  case (1 r)
  obtain c e0 r1 where nx: "next_node r = (c, e0, r1)"
    by (cases "next_node r") auto
  show ?case
  proof (cases "e0 = None \<and> c \<noteq> None")
    case False
    then show ?thesis
      using "1.prems" nx by (subst (asm) Read.simps) (auto split: option.splits)
  next
    case True
    then obtain m where c: "c = Some m" and e0: "e0 = None"
      by auto
    obtain err w where k: "keep r1 (Type m) (NodeName m) (world r1) = (err, w)"
      by (cases "keep r1 (Type m) (NodeName m) (world r1)") auto
    obtain e3 r3 where sk: "skipSubtree m (r1\<lparr>world := w\<rparr>) = (e3, r3)"
      by (cases "skipSubtree m (r1\<lparr>world := w\<rparr>)") auto
    have ih1: "errIs err ErrIgnore \<Longrightarrow> e3 = None \<Longrightarrow> Read r3 = (Some n, e, r') \<Longrightarrow> ?thesis"
      using "1.IH"(1) nx c e0 k sk by auto
    have ih2: "\<not> errIs err ErrIgnore \<Longrightarrow> errIs err ErrSkip \<Longrightarrow>
        Read (r1\<lparr>world := w\<rparr>) = (Some n, e, r') \<Longrightarrow> ?thesis"
      using "1.IH"(2) nx c e0 k by auto
    have ret: "\<not> errIs err ErrIgnore \<Longrightarrow> \<not> errIs err ErrSkip \<Longrightarrow> m = n \<Longrightarrow> r' = r1\<lparr>world := w\<rparr> \<Longrightarrow> ?thesis"
      using nx c e0 by blast
    from "1.prems" nx c e0 k sk ih1 ih2 ret show ?thesis
      by (subst (asm) Read.simps) (auto simp: Let_def split: option.splits if_splits)
  qed
qed

lemma emitNode_loop_dispatch:
  "i \<le> length cbs \<Longrightarrow>
   emitNode_loop n cbs i w =
     (case dispatch n (drop i cbs) w of (fs', e, w') \<Rightarrow> (take i cbs @ fs', e, w'))"
proof (induction n cbs i w rule: emitNode_loop.induct)
  case (1 n cbs i w)
  show ?case
  proof (cases "i < length cbs")
    case False
    then show ?thesis
      using "1.prems" by (subst emitNode_loop.simps) simp
  next
    case True
    then have d: "drop i cbs = cbs ! i # drop (Suc i) cbs"
      by (simp add: Cons_nth_drop_Suc)
    obtain err w' where f: "(cbs ! i) n w = (err, w')"
      by (cases "(cbs ! i) n w") auto
    show ?thesis
    proof (cases err)
      case None
      have "emitNode_loop n cbs (i + 1) w' =
          (case dispatch n (drop (i + 1) cbs) w' of (fs', e, w') \<Rightarrow> (take (i + 1) cbs @ fs', e, w'))"
        using "1.IH"(1) [OF True f [symmetric]] None True by simp
      then show ?thesis
        using True f None d
        by (subst emitNode_loop.simps) (simp add: take_Suc_conv_app_nth split: prod.splits)
    next
      case (Some er)
      show ?thesis
      proof (cases "errors_Is er ErrUnsubscribe")
        case u: True
        let ?cbs = "take i cbs @ drop (i + 1) cbs"
        have "emitNode_loop n ?cbs i w' =
            (case dispatch n (drop i ?cbs) w' of (fs', e, w') \<Rightarrow> (take i ?cbs @ fs', e, w'))"
          using "1.IH"(2) [OF True f [symmetric] _ u] Some True by simp
        moreover have "drop i ?cbs = drop (Suc i) cbs" and "take i ?cbs = take i cbs"
          using True by simp_all
        ultimately show ?thesis
          using True f Some u d by (subst emitNode_loop.simps) simp
      next
        case False
        then show ?thesis
          using True f Some d id_take_nth_drop [OF True]
          by (subst emitNode_loop.simps) (simp add: checkListenerError_def)
      qed
    qed
  qed
qed

lemma isLetter_valid: "isLetter x \<Longrightarrow> valid_rune x"
  by (auto simp: isLetter_def valid_rune_def)

lemma parseStringEntity_loop_letters:
  "list_all isLetter s \<Longrightarrow>
   parseStringEntity_loop b \<lparr>buf = s @ semicolon # rest, lastRune = l\<rparr> =
     (case entities (b @ s) of
        None \<Rightarrow> (0, Some (Wrapped ''%w: %s unknown entity'' [b @ s] ErrMalformed),
                 \<lparr>buf = rest, lastRune = Some semicolon\<rparr>)
      | Some r \<Rightarrow> (r, None, \<lparr>buf = rest, lastRune = Some semicolon\<rparr>))"
proof (induction s arbitrary: b l)
  case Nil
  show ?case
    by (subst parseStringEntity_loop.simps) (simp add: read_def split: option.splits)
next
  case (Cons x s)
  then have x1: "isLetter x" and s: "list_all isLetter s"
    by simp_all
  from x1 have x2: "x \<noteq> semicolon"
    by (auto simp: isLetter_def)
  note x = x1 x2
  show ?case
    using x Cons.IH [OF s, of "b @ [x]" "Some x"]
    by (subst parseStringEntity_loop.simps)
       (simp add: read_def WriteRune_def isLetter_valid cong: option.case_cong)
qed

lemma parseNumericEntity_loop_bad_digit:
  "list_all accept ds \<Longrightarrow> semicolon \<notin> set ds \<Longrightarrow> \<not> accept c \<Longrightarrow> c \<noteq> semicolon \<Longrightarrow>
   parseNumericEntity_loop base accept b \<lparr>buf = ds @ c # rest, lastRune = l\<rparr> =
     (0, Some (unexpectedChar c), \<lparr>buf = rest, lastRune = Some c\<rparr>)"
proof (induction ds arbitrary: b l)
  case Nil
  then show ?case
    by (subst parseNumericEntity_loop.simps) (simp add: read_def)
next
  case (Cons x ds)
  then show ?case
    by (subst parseNumericEntity_loop.simps) (simp add: read_def)
qed

lemma isHex_not_semicolon: "list_all isHex ds \<Longrightarrow> semicolon \<notin> set ds"
  by (induction ds) (auto simp: isHex_def isDigit_def)

lemma isDigit_isHex: "isDigit x \<Longrightarrow> isHex x"
  by (simp add: isHex_def)

lemma isDigit_not_semicolon: "list_all isDigit ds \<Longrightarrow> semicolon \<notin> set ds"
  by (induction ds) (auto simp: isDigit_def)

lemma emitBegin_dispatch:
  "emitBegin n r = (e, r') \<Longrightarrow> \<not> silent (listeners r) \<Longrightarrow>
     (listeners r', world r') = dispatch_begin n (listeners r, world r)"
  by (auto simp: emitBegin_def dispatch_begin_def split: prod.splits)

lemma emitAttr_dispatch:
  "emitAttr nm v r = (e, r') \<Longrightarrow> \<not> silent (listeners r) \<Longrightarrow>
     (listeners r', world r') = dispatch_attr \<lparr>AttrName = nm, Value = v\<rparr> (listeners r, world r)"
  by (auto simp: emitAttr_def dispatch_attr_def split: prod.splits)

lemma parseAttributes_loop_events:
  "parseAttributes_loop seen n r = (n', None, r') \<Longrightarrow> \<not> silent (listeners r) \<Longrightarrow>
     \<exists>new. Attrs n' = Attrs n @ new
       \<and> (listeners r', world r') = foldl (\<lambda>lw a. dispatch_attr a lw) (listeners r, world r) new"
proof (induction seen n r rule: parseAttributes_loop.induct)
  case (1 seen n r)
  obtain x err c1 where r1: "read (rs r) = (x, err, c1)"
    by (cases "read (rs r)") auto
  obtain nm e3 c3 where pn: "parseName (snd (unread c1)) = (nm, e3, c3)"
    by (cases "parseName (snd (unread c1))") auto
  obtain e4 c4 where w: "want equal (skipBlanks c3) = (e4, c4)"
    by (cases "want equal (skipBlanks c3)") auto
  obtain v e5 c5 where pv: "parseValue (skipBlanks c4) = (v, e5, c5)"
    by (cases "parseValue (skipBlanks c4)") auto
  obtain e6 r6 where em: "emitAttr nm v (r\<lparr>rs := c5\<rparr>) = (e6, r6)"
    by (cases "emitAttr nm v (r\<lparr>rs := c5\<rparr>)") auto
  let ?a = "\<lparr>AttrName = nm, Value = v\<rparr>"
  let ?n = "n\<lparr>Attrs := Attrs n @ [?a]\<rparr>"
  let ?r = "r6\<lparr>rs := skipBlanks (rs r6)\<rparr>"
  have err: "err = None"
    using "1.prems"(1) r1 by (subst (asm) parseAttributes_loop.simps) (auto split: option.splits)
  show ?case
  proof (cases "isName x")
    case False
    then have "n' = n" and "listeners r' = listeners r" and "world r' = world r"
      using "1.prems"(1) r1 err
      by (subst (asm) parseAttributes_loop.simps, auto split: prod.splits)+
    then show ?thesis
      by (intro exI [of _ "[]"]) simp
  next
    case True
    have rec: "e3 = None \<and> nm \<notin> seen \<and> e4 = None \<and> e5 = None \<and> e6 = None
        \<and> parseAttributes_loop (insert nm seen) ?n ?r = (n', None, r')"
      using "1.prems"(1) r1 err True pn w pv em
      by (subst (asm) parseAttributes_loop.simps)
         (auto simp: Let_def split: option.splits if_splits)
    have d: "(listeners r6, world r6) = dispatch_attr ?a (listeners r, world r)"
      using emitAttr_dispatch [OF em] "1.prems"(2) by simp
    have s6: "\<not> silent (listeners ?r)"
      using emitAttr_frame [OF em] "1.prems"(2) by simp
    obtain new where new: "Attrs n' = Attrs ?n @ new"
      "(listeners r', world r') = foldl (\<lambda>lw a. dispatch_attr a lw) (listeners ?r, world ?r) new"
      using "1.IH" [OF r1 [symmetric] refl err _ pn [symmetric] refl _ _ w [symmetric] _
           pv [symmetric] refl _ refl em [symmetric]] rec True s6
      by auto
    show ?thesis
      using new d by (intro exI [of _ "?a # new"]) simp
  qed
qed

lemma parseOpenElement_events:
  assumes "parseOpenElement r = (Some n, None, r')" and "\<not> silent (listeners r)"
  shows "(listeners r', world r') = open_events n (listeners r, world r)"
proof -
  obtain nm e1 c1 where pn: "parseName (rs r) = (nm, e1, c1)"
    by (cases "parseName (rs r)") auto
  obtain e2 r2 where em: "emitBegin nm (r\<lparr>rs := c1\<rparr>) = (e2, r2)"
    by (cases "emitBegin nm (r\<lparr>rs := c1\<rparr>)") auto
  let ?n0 = "(zeroNode BeginElement)\<lparr>NodeName := nm\<rparr>"
  let ?r2 = "r2\<lparr>rs := skipBlanks (rs r2)\<rparr>"
  obtain n3 e3 r3 where pa: "parseAttributes_loop {} ?n0 ?r2 = (n3, e3, r3)"
    by (cases "parseAttributes_loop {} ?n0 ?r2") auto
  have ok: "e1 = None \<and> e2 = None \<and> e3 = None"
    using assms(1) pn em pa
    by (auto simp: parseOpenElement_def parseAttributes_def split: option.splits)
  have n: "Attrs n = Attrs n3" "NodeName n = NodeName n3" and r': "listeners r' = listeners r3"
    "world r' = world r3"
    using assms(1) pn em pa ok
    by (auto simp: parseOpenElement_def parseAttributes_def split: prod.splits if_splits)
  have d: "(listeners r2, world r2) = dispatch_begin nm (listeners r, world r)"
    using emitBegin_dispatch [OF em] assms(2) by simp
  have s2: "\<not> silent (listeners ?r2)"
    using emitBegin_frame [OF em] assms(2) by simp
  obtain new where new: "Attrs n3 = Attrs ?n0 @ new"
    "(listeners r3, world r3) = foldl (\<lambda>lw a. dispatch_attr a lw) (listeners ?r2, world ?r2) new"
    using parseAttributes_loop_events [OF _ s2, of "{}" ?n0 n3 r3] pa ok by auto
  have "NodeName n3 = nm"
    using parseAttributes_loop_frame [OF pa] by (simp add: zeroNode_def)
  then show ?thesis
    using n r' d new by (simp add: open_events_def zeroNode_def)
qed

lemma next_node_begin_open:
  assumes "next_node r = (Some n, None, r')" and "Type n = BeginElement"
  shows "\<exists>c r2. parseOpenElement (r\<lparr>rs := c\<rparr>) = (Some n, None, r2)
           \<and> r' = (push n r2)\<lparr>rs := skipBlanks (rs (push n r2))\<rparr>"
proof -
  obtain x0 e0 c0 where r0: "read (rs r) = (x0, e0, c0)"
    by (cases "read (rs r)") auto
  have e0: "e0 = None"
    using assms(1) r0 by (cases e0) (auto simp: next_node_def)
  have "x0 = langle"
    using assms r0 e0 by (auto simp: next_node_def split: if_splits dest!: parseText_Type)
  then have pn: "parseNode (r\<lparr>rs := c0\<rparr>) = (Some n, None, r')"
    using assms(1) r0 e0 by (simp add: next_node_def)
  let ?r = "r\<lparr>rs := c0\<rparr>"
  obtain x e1 c1 where r1: "read (rs ?r) = (x, e1, c1)"
    by (cases "read (rs ?r)") auto
  have e1: "e1 = None"
    using pn r1 by (cases e1) (auto simp: parseNode_def)
  have nm: "x \<noteq> mark"
    using pn assms(2) r1 e1
    by (auto simp: parseNode_def split: prod.splits dest!: parseInstruction_Type)
  have nb: "x \<noteq> bang"
    using pn assms(2) r1 e1
    by (auto simp: parseNode_def Let_def split: prod.splits if_splits
          dest!: parseData_Type parseComment_Type)
  have ns: "x \<noteq> slash"
    using pn assms(2) r1 e1 nm nb
    by (auto simp: parseNode_def Let_def split: prod.splits if_splits option.splits
          dest!: parseEndElement_Type)
  have il: "isLetter x"
    using pn assms(2) r1 e1 nm nb ns
    by (auto simp: parseNode_def Let_def split: prod.splits if_splits option.splits)
  obtain r2 where "parseOpenElement (?r\<lparr>rs := snd (unread c1)\<rparr>) = (Some n, None, r2)"
    and "r' = (push n r2)\<lparr>rs := skipBlanks (rs (push n r2))\<rparr>"
    using pn assms(2) r1 e1 nm nb ns il
    by (auto simp: parseNode_def Let_def split: prod.splits if_splits option.splits)
  then show ?thesis
    by (intro exI [of _ "snd (unread c1)"] exI [of _ r2]) simp
qed

lemma isBlank_unicode: "isBlank x \<Longrightarrow> unicode_IsSpace x"
  by (auto simp: isBlank_def isSpace_def isNL_def unicode_IsSpace_def)

lemma dropWhile_unicode_blank:
  "dropWhile unicode_IsSpace (dropWhile isBlank s) = dropWhile unicode_IsSpace s"
  by (induction s) (auto simp: isBlank_unicode)

lemma TrimSpace_dropWhile_isBlank: "TrimSpace (dropWhile isBlank s) = TrimSpace s"
  by (simp add: TrimSpace_def dropWhile_unicode_blank)

lemma skipBlanks_loop_blanks:
  "\<not> isBlank x \<Longrightarrow>
   skipBlanks_loop \<lparr>buf = s @ x # rest, lastRune = l\<rparr>
     = \<lparr>buf = tl (dropWhile isBlank s @ x # rest),
        lastRune = Some (hd (dropWhile isBlank s @ x # rest))\<rparr>"
proof (induction s arbitrary: l)
  case Nil
  then show ?case
    by (subst skipBlanks_loop.simps) (simp add: read_def)
next
  case (Cons y s)
  then show ?case
    by (subst skipBlanks_loop.simps) (simp add: read_def)
qed

lemma skipBlanks_blanks:
  "\<not> isBlank x \<Longrightarrow>
   skipBlanks \<lparr>buf = s @ x # rest, lastRune = l\<rparr>
     = \<lparr>buf = dropWhile isBlank s @ x # rest, lastRune = None\<rparr>"
  by (simp add: skipBlanks_def skipBlanks_loop_blanks unread_def)

lemma has_rsquares_dropWhile:
  "\<not> has_rsquares (s @ [rsquare]) \<Longrightarrow> \<not> has_rsquares (dropWhile P s @ [rsquare])"
proof (induction s)
  case Nil
  then show ?case by simp
next
  case (Cons x s)
  then show ?case
    by (cases s) auto
qed

lemma parseData_loop_content:
  "\<not> has_rsquares (s @ [rsquare]) \<Longrightarrow> list_all valid_rune s \<Longrightarrow>
   parseData_loop b \<lparr>buf = s @ rsquare # rsquare # tail, lastRune = l\<rparr> =
     (case tail of
        [] \<Rightarrow> ([], Some (Wrapped ''%w: ]] can not appear in CDATA sections'' [] ErrMalformed),
               \<lparr>buf = [], lastRune = None\<rparr>)
      | z # t \<Rightarrow>
          if z = rangle then (b @ s, None, \<lparr>buf = t, lastRune = Some z\<rparr>)
          else ([], Some (Wrapped ''%w: ]] can not appear in CDATA sections'' [] ErrMalformed),
                \<lparr>buf = t, lastRune = Some z\<rparr>))"
proof (induction s arbitrary: b l)
  case Nil
  show ?case
    by (subst parseData_loop.simps)
       (simp add: read_def peek_def unread_def split: list.splits)
next
  case (Cons x s)
  then have v: "valid_rune x" and vs: "list_all valid_rune s"
    by simp_all
  have ns: "\<not> has_rsquares (s @ [rsquare])"
    using Cons.prems(1) by (cases s) auto
  show ?case
  proof (cases "x = rsquare")
    case False
    then show ?thesis
      using Cons.IH [OF ns vs, of "b @ [x]" "Some x"] v
      by (subst parseData_loop.simps) (simp add: read_def WriteRune_def cong: list.case_cong if_cong)
  next
    case True
    then obtain y s' where s: "s = y # s'" and y: "y \<noteq> rsquare"
      using Cons.prems(1) by (cases s) auto
    show ?thesis
      using Cons.IH [OF ns vs, of "b @ [x]" None] v True s y
      by (subst parseData_loop.simps)
         (simp add: read_def peek_def unread_def WriteRune_def cong: list.case_cong if_cong)
  qed
qed

lemma list_all_dropWhile: "list_all P s \<Longrightarrow> list_all P (dropWhile Q s)"
  by (induction s) auto

lemma parseName_CDATA:
  "parseName \<lparr>buf = runes ''CDATA'' @ lsquare # rest, lastRune = l\<rparr>
     = (\<lparr>NS = [], Name = runes ''CDATA''\<rparr>, None, \<lparr>buf = lsquare # rest, lastRune = None\<rparr>)"
  by (simp add: parseName_def parseName_parse_def parseName_loop.simps read_def unread_def peek_def
        runes_def isLetter_def isName_def isDigit_def WriteRune_def valid_rune_def)

lemma parseData_section:
  assumes "rs r = \<lparr>buf = lsquare # runes ''CDATA'' @ lsquare # cs @ rsquare # rsquare # tail, lastRune = l\<rparr>"
    and "\<not> has_rsquares (cs @ [rsquare])" and "list_all valid_rune cs"
  shows "parseData r =
     (case tail of
        [] \<Rightarrow> (None, Some (Wrapped ''%w: ]] can not appear in CDATA sections'' [] ErrMalformed),
               r\<lparr>rs := \<lparr>buf = [], lastRune = None\<rparr>\<rparr>)
      | z # t \<Rightarrow>
          if z = rangle then
            (case emitText (TrimSpace cs) (r\<lparr>rs := \<lparr>buf = t, lastRune = Some z\<rparr>\<rparr>) of
               (Some e, r2) \<Rightarrow> (None, Some e, r2)
             | (None, r2) \<Rightarrow> (Some (cdataNode cs), None, r2))
          else (None, Some (Wrapped ''%w: ]] can not appear in CDATA sections'' [] ErrMalformed),
                r\<lparr>rs := \<lparr>buf = t, lastRune = Some z\<rparr>\<rparr>))"
proof -
  let ?d = "dropWhile isBlank cs"
  have w1: "want lsquare (rs r) =
      (None, \<lparr>buf = runes ''CDATA'' @ lsquare # cs @ rsquare # rsquare # tail, lastRune = Some lsquare\<rparr>)"
    by (simp add: assms(1) want_def wantFunc_def read_def)
  have w2: "want lsquare \<lparr>buf = lsquare # cs @ rsquare # rsquare # tail, lastRune = None\<rparr> =
      (None, \<lparr>buf = cs @ rsquare # rsquare # tail, lastRune = Some lsquare\<rparr>)"
    by (simp add: want_def wantFunc_def read_def)
  have sb: "skipBlanks \<lparr>buf = cs @ rsquare # rsquare # tail, lastRune = Some lsquare\<rparr> =
      \<lparr>buf = ?d @ rsquare # rsquare # tail, lastRune = None\<rparr>"
    by (rule skipBlanks_blanks) (simp add: isBlank_def isSpace_def isNL_def)
  have lp: "parseData_loop [] \<lparr>buf = ?d @ rsquare # rsquare # tail, lastRune = None\<rparr> =
     (case tail of
        [] \<Rightarrow> ([], Some (Wrapped ''%w: ]] can not appear in CDATA sections'' [] ErrMalformed),
               \<lparr>buf = [], lastRune = None\<rparr>)
      | z # t \<Rightarrow>
          if z = rangle then ([] @ ?d, None, \<lparr>buf = t, lastRune = Some z\<rparr>)
          else ([], Some (Wrapped ''%w: ]] can not appear in CDATA sections'' [] ErrMalformed),
                \<lparr>buf = t, lastRune = Some z\<rparr>))"
    by (rule parseData_loop_content)
       (simp_all add: has_rsquares_dropWhile assms(2) list_all_dropWhile assms(3))
  show ?thesis
    by (simp add: parseData_def w1 parseName_CDATA w2 sb lp zeroNode_def cdataNode_def
          TrimSpace_dropWhile_isBlank Let_def
          split: list.splits prod.splits option.splits)
qed

section \<open>The claims\<close>

text \<open>
  C1 (the code departs from the claim).  The claim: the subtree skip of \<^verbatim>\<open>Read\<close> ends
  exactly at the end-element that returns the stack to the depth it had before the
  skipped element was pushed and that carries the element's name.  \<^verbatim>\<open>skipSubtree\<close> takes
  the depth after the push: the matching close tag leaves the stack one below it and does
  not end the skip.  On \<^verbatim>\<open><a><b/></a><c/>\<close> with a filter that ignores \<^verbatim>\<open>a\<close> the skip
  runs past \<^verbatim>\<open></a>\<close> to the end of the input, and \<^verbatim>\<open>Read\<close> returns \<^verbatim>\<open>io.EOF\<close> where the claim
  has it return \<^verbatim>\<open><c/>\<close>.
\<close>

theorem skipSubtree_runs_past_close_tag:
  "fst (Read (observed ''<a><b/></a><c/>'' (Some (ignore_element ''a'')))) = None
   \<and> fst (snd (Read (observed ''<a><b/></a><c/>'' (Some (ignore_element ''a''))))) = Some io_EOF
   \<and> buf (rs (snd (snd (Read (observed ''<a><b/></a><c/>'' (Some (ignore_element ''a''))))))) = []"
  by code_simp

text \<open>
  C2 (the code departs from the claim).  The claim: \<^verbatim>\<open>&#33;\<close> and \<^verbatim>\<open>&#x21;\<close> both decode to
  the code point 33, a numeric entity to the value of its full digit string.
  \<^verbatim>\<open>parseEntity\<close> reads the rune after \<^verbatim>\<open>#\<close> to look for \<^verbatim>\<open>x\<close> and does not give it back:
  the first decimal digit is lost, and \<^verbatim>\<open>&#33;\<close> decodes to the code point 3.
\<close>

theorem decimal_entity_loses_first_digit:
  "parseEntity \<lparr>buf = runes ''#33;'', lastRune = Some ampersand\<rparr>
     = (3, None, \<lparr>buf = [], lastRune = Some semicolon\<rparr>)
   \<and> parseEntity \<lparr>buf = runes ''#x21;'', lastRune = Some ampersand\<rparr>
     = (33, None, \<lparr>buf = [], lastRune = Some semicolon\<rparr>)
   \<and> map_option Content (fst (Read (observed ''&#33;<a/>'' None))) = Some [3]"
  by code_simp

text \<open>
  C3 (the code departs from the claim).  The claim: a close tag whose name differs from
  the top of the stack fails with a malformed-document error, and so does a close tag on
  an empty stack.  \<^verbatim>\<open>pop\<close> wraps \<^verbatim>\<open>ErrMalformed\<close> for the mismatch, but on the empty stack
  it returns an error that wraps nothing.
\<close>

theorem close_tag_on_empty_stack_not_malformed:
  "fst (snd (Read (observed ''</a>'' None))) = Some (ErrorString ''stack is empty'')
   \<and> \<not> errIs (fst (snd (Read (observed ''</a>'' None)))) ErrMalformed
   \<and> errIs (fst (snd (Read (snd (snd (Read (observed ''<a></b>'' None))))))) ErrMalformed"
  by code_simp

text \<open>
  C4 (corrected).  The claim has every failure of entity decoding be a malformed-document
  error.  A character outside the digit set of a numeric entity fails through
  \<^verbatim>\<open>unexpectedChar\<close>, which wraps \<^verbatim>\<open>ErrChar\<close>, as every unexpected character of the scanner
  does: \<^verbatim>\<open>&#x2g;\<close> fails with an unexpected-character error that is no malformed-document
  error.
\<close>

theorem bad_hex_digit_not_malformed:
  "fst (snd (parseEntity \<lparr>buf = runes ''#x2g;'', lastRune = Some ampersand\<rparr>))
     = Some (unexpectedChar 103)
   \<and> errIs (fst (snd (parseEntity \<lparr>buf = runes ''#x2g;'', lastRune = Some ampersand\<rparr>))) ErrChar
   \<and> \<not> errIs (fst (snd (parseEntity \<lparr>buf = runes ''#x2g;'', lastRune = Some ampersand\<rparr>))) ErrMalformed"
  by code_simp

text \<open>
  C4 as amended.  A named entity reference made of letters whose name is none of
  \<^verbatim>\<open>quot\<close>, \<^verbatim>\<open>apos\<close>, \<^verbatim>\<open>lt\<close>, \<^verbatim>\<open>gt\<close>, \<^verbatim>\<open>amp\<close> fails with a malformed-document error.  A
  numeric entity in which a character outside the digit set comes before the \<^verbatim>\<open>;\<close>
  (after hexadecimal digits under \<^verbatim>\<open>&#x\<close>, after decimal digits under \<^verbatim>\<open>&#\<close>) fails with
  the unexpected-character error of that character, which is no malformed-document
  error.
\<close>

theorem entity_errors:
  "(list_all isLetter s \<and> entities s = None \<longrightarrow>
      errIs (fst (snd (parseEntity \<lparr>buf = s @ semicolon # rest, lastRune = l\<rparr>))) ErrMalformed)
   \<and> (list_all isHex ds \<and> \<not> isHex c \<and> c \<noteq> semicolon \<longrightarrow>
      fst (snd (parseEntity \<lparr>buf = pound # 120 # ds @ c # rest, lastRune = l\<rparr>))
        = Some (unexpectedChar c))
   \<and> (isDigit d \<and> list_all isDigit ds \<and> \<not> isDigit c \<and> c \<noteq> semicolon \<longrightarrow>
      fst (snd (parseEntity \<lparr>buf = pound # d # ds @ c # rest, lastRune = l\<rparr>))
        = Some (unexpectedChar c))
   \<and> errors_Is (unexpectedChar c) ErrChar \<and> \<not> errors_Is (unexpectedChar c) ErrMalformed"
proof (intro conjI impI)
  assume a: "list_all isLetter s \<and> entities s = None"
  show "errIs (fst (snd (parseEntity \<lparr>buf = s @ semicolon # rest, lastRune = l\<rparr>))) ErrMalformed"
  proof (cases s)
    case Nil
    then show ?thesis
      using a parseStringEntity_loop_letters [of "[]" "[]" rest None]
      by (simp add: parseEntity_def read_def parseStringEntity_def unread_def errIs_def)
  next
    case (Cons x s')
    then have "isLetter x"
      using a by simp
    then have "x \<noteq> pound"
      by (auto simp: isLetter_def)
    then show ?thesis
      using a Cons parseStringEntity_loop_letters [of s "[]" rest None]
      by (simp add: parseEntity_def read_def parseStringEntity_def unread_def errIs_def)
  qed
next
  assume a: "list_all isHex ds \<and> \<not> isHex c \<and> c \<noteq> semicolon"
  then show "fst (snd (parseEntity \<lparr>buf = pound # 120 # ds @ c # rest, lastRune = l\<rparr>))
      = Some (unexpectedChar c)"
    using parseNumericEntity_loop_bad_digit [of isHex ds c 16 "[]" rest "Some 120"]
      isHex_not_semicolon [of ds]
    by (simp add: parseEntity_def read_def parseNumericEntity_def)
next
  assume a: "isDigit d \<and> list_all isDigit ds \<and> \<not> isDigit c \<and> c \<noteq> semicolon"
  then have "d \<noteq> 120"
    by (auto simp: isDigit_def)
  then show "fst (snd (parseEntity \<lparr>buf = pound # d # ds @ c # rest, lastRune = l\<rparr>))
      = Some (unexpectedChar c)"
    using a parseNumericEntity_loop_bad_digit [of isDigit ds c 10 "[]" rest "Some d"]
      isDigit_not_semicolon [of ds]
    by (simp add: parseEntity_def read_def parseNumericEntity_def)
next
  show "errors_Is (unexpectedChar c) ErrChar"
    by (simp add: unexpectedChar_def)
next
  show "\<not> errors_Is (unexpectedChar c) ErrMalformed"
    by (simp add: unexpectedChar_def)
qed

theorem entity_errors_witness:
  "errIs (fst (snd (parseEntity \<lparr>buf = runes ''nbsp;'', lastRune = Some ampersand\<rparr>))) ErrMalformed
   \<and> fst (snd (parseEntity \<lparr>buf = runes ''#x2g;'', lastRune = Some ampersand\<rparr>))
       = Some (unexpectedChar 103)
   \<and> fst (snd (parseEntity \<lparr>buf = runes ''#12a;'', lastRune = Some ampersand\<rparr>))
       = Some (unexpectedChar 97)
   \<and> errors_Is (unexpectedChar 103) ErrChar \<and> \<not> errors_Is (unexpectedChar 103) ErrMalformed"
proof -
  have h1: "list_all isLetter (runes ''nbsp'') \<and> entities (runes ''nbsp'') = None"
    by code_simp
  have h2: "list_all isHex (runes ''2'') \<and> \<not> isHex 103 \<and> (103 :: int) \<noteq> semicolon"
    by code_simp
  have h3: "isDigit 49 \<and> list_all isDigit (runes ''2'') \<and> \<not> isDigit 97 \<and> (97 :: int) \<noteq> semicolon"
    by code_simp
  have e: "runes ''nbsp;'' = runes ''nbsp'' @ semicolon # []"
    "runes ''#x2g;'' = pound # 120 # runes ''2'' @ 103 # runes '';''"
    "runes ''#12a;'' = pound # 49 # runes ''2'' @ 97 # runes '';''"
    by (simp_all add: runes_def)
  show ?thesis
    using entity_errors [where s = "runes ''nbsp''" and rest = "[]" and l = "Some ampersand"
        and ds = "runes ''2''" and c = 103 and d = 49]
      entity_errors [where s = "runes ''nbsp''" and rest = "runes '';''" and l = "Some ampersand"
        and ds = "runes ''2''" and c = 103 and d = 49]
      entity_errors [where s = "runes ''nbsp''" and rest = "runes '';''" and l = "Some ampersand"
        and ds = "runes ''2''" and c = 97 and d = 49]
      h1 h2 h3
    unfolding e by blast
qed

text \<open>
  C5 (the code departs from the claim).  The claim: when the filter ignores a
  begin-element \<^verbatim>\<open>X\<close>, no event of a descendant of \<^verbatim>\<open>X\<close> is dispatched and the Reader
  resumes after the close tag of \<^verbatim>\<open>X\<close>.  The skip ends at the first token named \<^verbatim>\<open>X\<close>
  that leaves the stack at the depth taken after the push (the defect of C1): on
  \<^verbatim>\<open><a><a/><b/></a>\<close> it ends at \<^verbatim>\<open><a/>\<close>, the begin-element event of the descendant \<^verbatim>\<open>b\<close>
  is dispatched, and \<^verbatim>\<open>Read\<close> returns \<^verbatim>\<open><b/>\<close>.
\<close>

theorem skipSubtree_ends_inside_subtree:
  "fst (Read (observed ''<a><a/><b/></a>'' (Some (ignore_element ''a''))))
     = Some \<lparr>Type = BeginElement, NodeName = local ''b'', Attrs = [], Content = [], SelfClosing = True\<rparr>
   \<and> world (snd (snd (Read (observed ''<a><a/><b/></a>'' (Some (ignore_element ''a''))))))
     = [EvBegin (local ''a''), EvBegin (local ''b'')]
   \<and> buf (rs (snd (snd (Read (observed ''<a><a/><b/></a>'' (Some (ignore_element ''a'')))))))
     = runes ''</a>''"
  by code_simp

text \<open>
  C6.  A begin-element token leaves the depth one above the depth before its scan step,
  and at that depth when it is self-closing; and every token \<^verbatim>\<open>Read\<close> returns is the token
  of a scan step, the Reader being left as that step left it (the filter only acts on
  the world).
\<close>

theorem begin_element_depth:
  "(next_node r0 = (Some n, None, r1) \<and> Type n = BeginElement
      \<longrightarrow> Depth r1 = Depth r0 + (if SelfClosing n then 0 else 1))
   \<and> (Read r = (Some n, e, r') \<and> Type n = BeginElement
      \<longrightarrow> (\<exists>r0 r1 w. next_node r0 = (Some n, None, r1) \<and> r' = r1\<lparr>world := w\<rparr>
            \<and> Depth r' = Depth r0 + (if SelfClosing n then 0 else 1)))"
proof (intro conjI impI)
  assume "next_node r0 = (Some n, None, r1) \<and> Type n = BeginElement"
  then show "Depth r1 = Depth r0 + (if SelfClosing n then 0 else 1)"
    using next_node_begin_depth by blast
next
  assume a: "Read r = (Some n, e, r') \<and> Type n = BeginElement"
  then obtain q0 q1 w where q: "next_node q0 = (Some n, None, q1)" and r': "r' = q1\<lparr>world := w\<rparr>"
    using Read_from_scan_step by blast
  have "Depth r' = Depth q0 + (if SelfClosing n then 0 else 1)"
    using next_node_begin_depth [OF q] a r' by (simp add: Depth_def)
  then show "\<exists>r0 r1 w. next_node r0 = (Some n, None, r1) \<and> r' = r1\<lparr>world := w\<rparr>
      \<and> Depth r' = Depth r0 + (if SelfClosing n then 0 else 1)"
    using q r' by blast
qed

theorem begin_element_depth_witness:
  "Depth (snd (snd (next_node (observed ''<a><b/></a>'' None)))) = Depth (observed ''<a><b/></a>'' None) + 1
   \<and> Depth (snd (snd (next_node (snd (snd (next_node (observed ''<a><b/></a>'' None)))))))
       = Depth (snd (snd (next_node (observed ''<a><b/></a>'' None))))
   \<and> (\<exists>r0 r1 w.
         next_node r0 = (fst (Read (observed ''<a><b/></a>'' None)), None, r1)
         \<and> snd (snd (Read (observed ''<a><b/></a>'' None))) = r1\<lparr>world := w\<rparr>
         \<and> Depth (snd (snd (Read (observed ''<a><b/></a>'' None)))) = Depth r0 + 1)"
proof -
  let ?r = "observed ''<a><b/></a>'' None"
  let ?a = "\<lparr>Type = BeginElement, NodeName = local ''a'', Attrs = [], Content = [], SelfClosing = False\<rparr>"
  let ?b = "\<lparr>Type = BeginElement, NodeName = local ''b'', Attrs = [], Content = [], SelfClosing = True\<rparr>"
  let ?r1 = "snd (snd (next_node ?r))"
  let ?r2 = "snd (snd (next_node ?r1))"
  have "fst (next_node ?r) = Some ?a" and "fst (snd (next_node ?r)) = None"
    by code_simp+
  then have s1: "next_node ?r = (Some ?a, None, ?r1)"
    by (metis prod.collapse)
  have "fst (next_node ?r1) = Some ?b" and "fst (snd (next_node ?r1)) = None"
    by code_simp+
  then have s2: "next_node ?r1 = (Some ?b, None, ?r2)"
    by (metis prod.collapse)
  have f: "fst (Read ?r) = Some ?a" and "fst (snd (Read ?r)) = None"
    by code_simp+
  then have s3: "Read ?r = (Some ?a, None, snd (snd (Read ?r)))"
    by (metis prod.collapse)
  have t: "Type ?a = BeginElement" "Type ?b = BeginElement" "\<not> SelfClosing ?a" "SelfClosing ?b"
    by simp_all
  have c1: "Depth ?r1 = Depth ?r + 1"
    using begin_element_depth [of ?r ?a ?r1 ?r None "snd (snd (Read ?r))"] s1 t by simp
  have c2: "Depth ?r2 = Depth ?r1"
    using begin_element_depth [of ?r1 ?b ?r2 ?r None ?r1] s2 t by simp
  have c3: "\<exists>r0 r1 w. next_node r0 = (Some ?a, None, r1) \<and> snd (snd (Read ?r)) = r1\<lparr>world := w\<rparr>
      \<and> Depth (snd (snd (Read ?r))) = Depth r0 + 1"
    using begin_element_depth [of ?r ?a ?r1 ?r None "snd (snd (Read ?r))"] s3 t by simp
  show ?thesis
    using c1 c2 c3 f by simp
qed

text \<open>
  C7.  \<^verbatim>\<open>emitNode\<close> is that dispatch: a callback that returns stop ends the round with the
  later callbacks not invoked and no error; a callback that returns unsubscribe is
  dropped from the list that \<^verbatim>\<open>emitNode\<close> returns, and the callbacks after it are still
  invoked, in order.  \<^verbatim>\<open>emitBegin\<close> returns the error of the round to the parse and stores
  the list, which is the list of the next begin-element event.
\<close>

theorem emitNode_dispatch:
  "emitNode n cbs w = dispatch n cbs w
   \<and> (\<not> silent (listeners r) \<longrightarrow>
        emitBegin n r =
          (case dispatch n (begins (listeners r)) (world r) of
             (cbs', e, w') \<Rightarrow> (e, r\<lparr>listeners := (listeners r)\<lparr>begins := cbs'\<rparr>, world := w'\<rparr>)))"
  using emitNode_loop_dispatch [of 0 cbs n w]
    emitNode_loop_dispatch [of 0 "begins (listeners r)" n "world r"]
  by (simp add: emitNode_def emitBegin_def)

theorem emitNode_dispatch_witness:
  "emitNode (local ''a'')
       [counted 1 None, counted 2 (Some ErrUnsubscribe), counted 3 None,
        counted 4 (Some ErrStop), counted 5 None] []
     = ([counted 1 None, counted 3 None, counted 4 (Some ErrStop), counted 5 None], None, [1, 2, 3, 4])
   \<and> fst (emitBegin (local ''a'') counting) = None
   \<and> world (snd (emitBegin (local ''a'') counting)) = [1, 2, 3, 4]
   \<and> fst (emitBegin (local ''b'') (snd (emitBegin (local ''a'') counting))) = None
   \<and> world (snd (emitBegin (local ''b'') (snd (emitBegin (local ''a'') counting))))
       = [1, 2, 3, 4, 1, 3, 4]"
proof -
  have s: "\<not> silent (listeners counting)"
    by (simp add: counting_def New_def OnBeginElement_def)
  have b: "begins (listeners counting) =
      [counted 1 None, counted 2 (Some ErrUnsubscribe), counted 3 None,
       counted 4 (Some ErrStop), counted 5 None]" and w: "world counting = []"
    by (simp_all add: counting_def New_def OnBeginElement_def)
  let ?r = "snd (emitBegin (local ''a'') counting)"
  have 1: "emitBegin (local ''a'') counting =
      (None, counting\<lparr>listeners := (listeners counting)
          \<lparr>begins := [counted 1 None, counted 3 None, counted 4 (Some ErrStop), counted 5 None]\<rparr>,
        world := [1, 2, 3, 4]\<rparr>)"
  proof -
    have "emitBegin (local ''a'') counting =
        (case dispatch (local ''a'') (begins (listeners counting)) (world counting) of
           (cbs', e, w') \<Rightarrow>
             (e, counting\<lparr>listeners := (listeners counting)\<lparr>begins := cbs'\<rparr>, world := w'\<rparr>))"
      using emitNode_dispatch [of "local ''a''" "[]" "[]" counting] s by blast
    then show ?thesis
      by (simp add: b w counted_def)
  qed
  have s': "\<not> silent (listeners ?r)"
    using s by (simp add: 1)
  have 2: "emitBegin (local ''b'') ?r =
      (None, ?r\<lparr>listeners := (listeners ?r)
          \<lparr>begins := [counted 1 None, counted 3 None, counted 4 (Some ErrStop), counted 5 None]\<rparr>,
        world := [1, 2, 3, 4, 1, 3, 4]\<rparr>)"
  proof -
    have "emitBegin (local ''b'') ?r =
        (case dispatch (local ''b'') (begins (listeners ?r)) (world ?r) of
           (cbs', e, w') \<Rightarrow> (e, ?r\<lparr>listeners := (listeners ?r)\<lparr>begins := cbs'\<rparr>, world := w'\<rparr>))"
      using emitNode_dispatch [of "local ''b''" "[]" "[]" ?r] s' by blast
    then show ?thesis
      by (simp add: 1 counted_def)
  qed
  have 3: "emitNode (local ''a'')
       [counted 1 None, counted 2 (Some ErrUnsubscribe), counted 3 None,
        counted 4 (Some ErrStop), counted 5 None] []
     = ([counted 1 None, counted 3 None, counted 4 (Some ErrStop), counted 5 None], None, [1, 2, 3, 4])"
  proof -
    have "emitNode (local ''a'')
       [counted 1 None, counted 2 (Some ErrUnsubscribe), counted 3 None,
        counted 4 (Some ErrStop), counted 5 None] ([] :: nat list)
      = dispatch (local ''a'')
       [counted 1 None, counted 2 (Some ErrUnsubscribe), counted 3 None,
        counted 4 (Some ErrStop), counted 5 None] []"
      using emitNode_dispatch [of "local ''a''" _ "[]" counting] by blast
    then show ?thesis
      by (simp add: counted_def)
  qed
  show ?thesis
    using 1 2 3 by simp
qed

text \<open>
  C8.  A CDATA section whose content \<open>cs\<close> holds no \<^verbatim>\<open>]]\<close> and does not end in \<^verbatim>\<open>]\<close>, so
  that the \<^verbatim>\<open>]]\<close> after it is the first one.  When \<^verbatim>\<open>>\<close> follows, the content is taken
  as it is (whatever markup or entity references it holds), trimmed, dispatched through
  \<^verbatim>\<open>emitText\<close> and returned in a token of type \<^verbatim>\<open>CData\<close> that is self-closing; the
  comment callbacks are left alone.  When something else follows the \<^verbatim>\<open>]]\<close>, or nothing,
  the scan step fails with a malformed-document error and dispatches nothing.
\<close>

theorem cdata_section:
  assumes "rs r = \<lparr>buf = runes ''<![CDATA['' @ cs @ rsquare # rsquare # tail, lastRune = l\<rparr>"
    and "\<not> has_rsquares (cs @ [rsquare])" and "list_all valid_rune cs"
  shows "(tail = rangle # rest \<longrightarrow>
            next_node r =
              (case emitText (TrimSpace cs) (r\<lparr>rs := \<lparr>buf = rest, lastRune = Some rangle\<rparr>\<rparr>) of
                 (Some e, r2) \<Rightarrow> (None, Some e, r2\<lparr>rs := skipBlanks (rs r2)\<rparr>)
               | (None, r2) \<Rightarrow> (Some (cdataNode cs), None, r2\<lparr>rs := skipBlanks (rs r2)\<rparr>))
            \<and> comments (listeners (snd (snd (next_node r)))) = comments (listeners r)
            \<and> stack (snd (snd (next_node r))) = stack r)
       \<and> ((case tail of [] \<Rightarrow> True | z # t \<Rightarrow> z \<noteq> rangle) \<longrightarrow>
            fst (next_node r) = None
            \<and> errIs (fst (snd (next_node r))) ErrMalformed
            \<and> listeners (snd (snd (next_node r))) = listeners r
            \<and> world (snd (snd (next_node r))) = world r)"
proof -
  let ?c = "\<lparr>buf = lsquare # runes ''CDATA'' @ lsquare # cs @ rsquare # rsquare # tail, lastRune = None\<rparr>"
  have n: "next_node r =
      (case parseData (r\<lparr>rs := ?c\<rparr>) of (n, err, r') \<Rightarrow> (n, err, r'\<lparr>rs := skipBlanks (rs r')\<rparr>))"
    by (simp add: next_node_def parseNode_def assms(1) read_def unread_def runes_def Let_def)
  have p: "parseData (r\<lparr>rs := ?c\<rparr>) =
     (case tail of
        [] \<Rightarrow> (None, Some (Wrapped ''%w: ]] can not appear in CDATA sections'' [] ErrMalformed),
               r\<lparr>rs := \<lparr>buf = [], lastRune = None\<rparr>\<rparr>)
      | z # t \<Rightarrow>
          if z = rangle then
            (case emitText (TrimSpace cs) (r\<lparr>rs := \<lparr>buf = t, lastRune = Some z\<rparr>\<rparr>) of
               (Some e, r2) \<Rightarrow> (None, Some e, r2)
             | (None, r2) \<Rightarrow> (Some (cdataNode cs), None, r2))
          else (None, Some (Wrapped ''%w: ]] can not appear in CDATA sections'' [] ErrMalformed),
                r\<lparr>rs := \<lparr>buf = t, lastRune = Some z\<rparr>\<rparr>))"
    using parseData_section [of "r\<lparr>rs := ?c\<rparr>" cs tail None] assms(2,3)
    by (simp cong: list.case_cong if_cong)
  show ?thesis
  proof (intro conjI impI)
    assume t: "tail = rangle # rest"
    show "next_node r =
        (case emitText (TrimSpace cs) (r\<lparr>rs := \<lparr>buf = rest, lastRune = Some rangle\<rparr>\<rparr>) of
           (Some e, r2) \<Rightarrow> (None, Some e, r2\<lparr>rs := skipBlanks (rs r2)\<rparr>)
         | (None, r2) \<Rightarrow> (Some (cdataNode cs), None, r2\<lparr>rs := skipBlanks (rs r2)\<rparr>))"
      unfolding n p by (simp add: t split: prod.splits option.splits)
    then show "comments (listeners (snd (snd (next_node r)))) = comments (listeners r)"
      by (auto simp: emitText_def split: prod.splits option.splits if_splits)
    show "stack (snd (snd (next_node r))) = stack r"
      unfolding n p by (auto simp: t emitText_def split: prod.splits option.splits if_splits)
  next
    assume t: "case tail of [] \<Rightarrow> True | z # t \<Rightarrow> z \<noteq> rangle"
    then show "fst (next_node r) = None"
      unfolding n p by (auto split: list.splits)
    from t show "errIs (fst (snd (next_node r))) ErrMalformed"
      unfolding n p by (auto simp: errIs_def split: list.splits)
    from t show "listeners (snd (snd (next_node r))) = listeners r"
      unfolding n p by (auto split: list.splits)
    from t show "world (snd (snd (next_node r))) = world r"
      unfolding n p by (auto split: list.splits)
  qed
qed

theorem cdata_section_witness:
  "fst (next_node (observed ''<![CDATA[ <x>hi</x> ]]><b/>'' None))
     = Some \<lparr>Type = CData, NodeName = local ''CDATA'', Attrs = [],
             Content = runes ''<x>hi</x>'', SelfClosing = True\<rparr>
   \<and> world (snd (snd (next_node (observed ''<![CDATA[ <x>hi</x> ]]><b/>'' None))))
       = [EvText (runes ''<x>hi</x>'')]
   \<and> comments (listeners (snd (snd (next_node (observed ''<![CDATA[ <x>hi</x> ]]><b/>'' None)))))
       = comments (listeners (observed ''<![CDATA[ <x>hi</x> ]]><b/>'' None))
   \<and> stack (snd (snd (next_node (observed ''<![CDATA[ <x>hi</x> ]]><b/>'' None)))) = []
   \<and> fst (next_node (observed ''<![CDATA[a]]b]]>'' None)) = None
   \<and> errIs (fst (snd (next_node (observed ''<![CDATA[a]]b]]>'' None)))) ErrMalformed
   \<and> world (snd (snd (next_node (observed ''<![CDATA[a]]b]]>'' None)))) = []"
proof -
  let ?r = "observed ''<![CDATA[ <x>hi</x> ]]><b/>'' None"
  let ?q = "observed ''<![CDATA[a]]b]]>'' None"
  let ?cs = "runes '' <x>hi</x> ''"
  have r: "rs ?r = \<lparr>buf = runes ''<![CDATA['' @ ?cs @ rsquare # rsquare # (rangle # runes ''<b/>''),
      lastRune = None\<rparr>"
    by code_simp
  have q: "rs ?q = \<lparr>buf = runes ''<![CDATA['' @ runes ''a'' @ rsquare # rsquare # runes ''b]]>'',
      lastRune = None\<rparr>"
    by code_simp
  have h: "\<not> has_rsquares (?cs @ [rsquare])" "list_all valid_rune ?cs"
    "\<not> has_rsquares (runes ''a'' @ [rsquare])" "list_all valid_rune (runes ''a'')"
    "case runes ''b]]>'' of [] \<Rightarrow> True | z # t \<Rightarrow> z \<noteq> rangle"
    by code_simp+
  have e: "fst (next_node ?r) = Some \<lparr>Type = CData, NodeName = local ''CDATA'', Attrs = [],
      Content = runes ''<x>hi</x>'', SelfClosing = True\<rparr>"
    "world (snd (snd (next_node ?r))) = [EvText (runes ''<x>hi</x>'')]"
    "stack ?r = []" "world ?q = []"
    by code_simp+
  have 1: "comments (listeners (snd (snd (next_node ?r)))) = comments (listeners ?r)
      \<and> stack (snd (snd (next_node ?r))) = stack ?r"
    using cdata_section [OF r h(1,2), of "runes ''<b/>''"] by blast
  have 2: "fst (next_node ?q) = None \<and> errIs (fst (snd (next_node ?q))) ErrMalformed
      \<and> world (snd (snd (next_node ?q))) = world ?q"
    using cdata_section [OF q h(3,4), of "[]"] h(5) by blast
  show ?thesis
    using 1 2 e by simp
qed

text \<open>
  C9.  When \<^verbatim>\<open>Read\<close> consults the filter about a begin-element token that is not
  self-closing, the dispatcher is already in the state that the element's own
  begin-element event and its attribute events, in order, leave it in: they were
  dispatched during the scan step, outside silent mode.  The filter sees that world, and
  the skip that its ignore starts goes on from it.
\<close>

theorem open_events_before_skip:
  assumes "next_node r = (Some n, None, r1)"
    and "Type n = BeginElement" and "\<not> SelfClosing n"
    and "\<not> silent (listeners r)"
    and "keep r1 (Type n) (NodeName n) (world r1) = (err, w)"
    and "errIs err ErrIgnore"
  shows "(listeners r1, world r1) = open_events n (listeners r, world r)
    \<and> Read r = (case skipSubtree n (r1\<lparr>world := w\<rparr>) of
                  (Some e, r3) \<Rightarrow> (None, Some e, r3)
                | (None, r3) \<Rightarrow> Read r3)"
proof -
  obtain c r2 where po: "parseOpenElement (r\<lparr>rs := c\<rparr>) = (Some n, None, r2)"
    and r1: "r1 = (push n r2)\<lparr>rs := skipBlanks (rs (push n r2))\<rparr>"
    using next_node_begin_open [OF assms(1,2)] by blast
  have "(listeners r2, world r2) = open_events n (listeners r, world r)"
    using parseOpenElement_events [OF po] assms(4) by simp
  then have ev: "(listeners r1, world r1) = open_events n (listeners r, world r)"
    using r1 by (simp add: push_def)
  have "Read r = (case skipSubtree n (r1\<lparr>world := w\<rparr>) of
                  (Some e, r3) \<Rightarrow> (None, Some e, r3)
                | (None, r3) \<Rightarrow> Read r3)"
    using assms(1,5,6) by (subst Read.simps) (simp add: Let_def)
  with ev show ?thesis by simp
qed

theorem open_events_before_skip_witness:
  "world (snd (snd (next_node (observed ''<a x=\"1\" y=\"2\"><b/></a>'' (Some (ignore_element ''a''))))))
     = [EvBegin (local ''a''), EvAttr (local ''x'') (runes ''1''), EvAttr (local ''y'') (runes ''2'')]
   \<and> world (snd (snd (Read (observed ''<a x=\"1\" y=\"2\"><b/></a>'' (Some (ignore_element ''a''))))))
     = [EvBegin (local ''a''), EvAttr (local ''x'') (runes ''1''), EvAttr (local ''y'') (runes ''2'')]"
proof -
  let ?r = "observed ''<a x=\"1\" y=\"2\"><b/></a>'' (Some (ignore_element ''a''))"
  let ?a = "\<lparr>Type = BeginElement, NodeName = local ''a'',
      Attrs = [\<lparr>AttrName = local ''x'', Value = runes ''1''\<rparr>, \<lparr>AttrName = local ''y'', Value = runes ''2''\<rparr>],
      Content = [], SelfClosing = False\<rparr>"
  let ?ev = "[EvBegin (local ''a''), EvAttr (local ''x'') (runes ''1''), EvAttr (local ''y'') (runes ''2'')]"
  let ?r1 = "snd (snd (next_node ?r))"
  have "fst (next_node ?r) = Some ?a" and "fst (snd (next_node ?r)) = None"
    by code_simp+
  then have s1: "next_node ?r = (Some ?a, None, ?r1)"
    by (metis prod.collapse)
  have "fst (keep ?r1 (Type ?a) (NodeName ?a) (world ?r1)) = Some ErrIgnore"
    and "snd (keep ?r1 (Type ?a) (NodeName ?a) (world ?r1)) = ?ev"
    by code_simp+
  then have k: "keep ?r1 (Type ?a) (NodeName ?a) (world ?r1) = (Some ErrIgnore, ?ev)"
    by (metis prod.collapse)
  have t: "Type ?a = BeginElement" "\<not> SelfClosing ?a" "errIs (Some ErrIgnore) ErrIgnore"
    by (simp_all add: errIs_def)
  have s: "\<not> silent (listeners ?r)"
    by code_simp
  have o: "snd (open_events ?a (listeners ?r, world ?r)) = ?ev"
    by code_simp
  have w: "world (snd (snd (Read ?r))) = ?ev"
    by code_simp
  have "(listeners ?r1, world ?r1) = open_events ?a (listeners ?r, world ?r)"
    using open_events_before_skip [OF s1 t(1,2) s k t(3)] by blast
  then have "world ?r1 = snd (open_events ?a (listeners ?r, world ?r))"
    by (metis snd_conv)
  then show ?thesis
    using o w by simp
qed

text \<open>
  C10.  When the filter answers ignore (or skip) for a token that is no begin-element or
  is self-closing, \<^verbatim>\<open>skipSubtree\<close> does nothing and \<^verbatim>\<open>Read\<close> goes on with the next scan
  step: the token is not returned, and ignore and skip have the same effect.
\<close>

theorem ignore_as_skip:
  assumes "next_node r = (Some n, None, r1)"
    and "keep r1 (Type n) (NodeName n) (world r1) = (err, w)"
    and "errIs err ErrIgnore \<or> errIs err ErrSkip"
    and "Type n \<noteq> BeginElement \<or> SelfClosing n"
  shows "skipSubtree n (r1\<lparr>world := w\<rparr>) = (None, r1\<lparr>world := w\<rparr>)
    \<and> Read r = Read (r1\<lparr>world := w\<rparr>)"
proof -
  have sk: "skipSubtree n (r1\<lparr>world := w\<rparr>) = (None, r1\<lparr>world := w\<rparr>)"
    using assms(4) by (auto simp: skipSubtree_def)
  have "Read r = Read (r1\<lparr>world := w\<rparr>)"
    using assms(1,2,3) sk by (subst Read.simps) (auto simp: Let_def)
  with sk show ?thesis by simp
qed

theorem ignore_as_skip_witness:
  "fst (Read (observed ''<a/><b/>'' (Some (ignore_element ''a''))))
     = Some \<lparr>Type = BeginElement, NodeName = local ''b'', Attrs = [], Content = [], SelfClosing = True\<rparr>
   \<and> Read (observed ''<a/><b/>'' (Some (ignore_element ''a'')))
     = Read ((snd (snd (next_node (observed ''<a/><b/>'' (Some (ignore_element ''a''))))))
              \<lparr>world := [EvBegin (local ''a'')]\<rparr>)"
proof -
  let ?r = "observed ''<a/><b/>'' (Some (ignore_element ''a''))"
  let ?a = "\<lparr>Type = BeginElement, NodeName = local ''a'', Attrs = [], Content = [], SelfClosing = True\<rparr>"
  let ?r1 = "snd (snd (next_node ?r))"
  have "fst (next_node ?r) = Some ?a" and "fst (snd (next_node ?r)) = None"
    by code_simp+
  then have s1: "next_node ?r = (Some ?a, None, ?r1)"
    by (metis prod.collapse)
  have "fst (keep ?r1 (Type ?a) (NodeName ?a) (world ?r1)) = Some ErrIgnore"
    and "snd (keep ?r1 (Type ?a) (NodeName ?a) (world ?r1)) = [EvBegin (local ''a'')]"
    by code_simp+
  then have k: "keep ?r1 (Type ?a) (NodeName ?a) (world ?r1) = (Some ErrIgnore, [EvBegin (local ''a'')])"
    by (metis prod.collapse)
  have i: "errIs (Some ErrIgnore) ErrIgnore \<or> errIs (Some ErrIgnore) ErrSkip"
    by (simp add: errIs_def)
  have t: "Type ?a \<noteq> BeginElement \<or> SelfClosing ?a"
    by simp
  have f: "fst (Read ?r) = Some \<lparr>Type = BeginElement, NodeName = local ''b'', Attrs = [], Content = [],
      SelfClosing = True\<rparr>"
    by code_simp
  show ?thesis
    using ignore_as_skip [OF s1 k i t] f by simp
qed

end
